theory Spec2Isabelle
  imports Main "HOL-Library.Word" "HOL-Library.AList" "HOL-Library.Sublist"
begin

unbundle bit_operations_syntax

section \<open>File system model\<close>

text \<open>
  \<^verbatim>\<open>folder_sync.py\<close> mirrors a source directory tree into a replica directory tree through
  \<^verbatim>\<open>pathlib\<close>, \<^verbatim>\<open>shutil\<close> and \<^verbatim>\<open>hashlib\<close>. The file system is modelled as a tree: a regular file
  carries its bytes and whether it may be opened for reading and for writing, a directory
  carries its entries in the order \<^verbatim>\<open>os.scandir\<close> lists them. Symbolic links and directory
  permissions are not modelled.

  The source root is an object of its own (\<open>None\<close> when the path does not exist); the replica
  root is the path \<open>rpath\<close> inside a volume, so that missing or blocking ancestors of the
  replica root are part of the model. The two trees are disjoint: neither root lies inside
  the other.
\<close>

type_synonym name = string
type_synonym path = "name list"
type_synonym bytes = "8 word list"

datatype node =
    File (content: bytes) (readable: bool) (writable: bool)
  | Dir (entries: "(name \<times> node) list")

text \<open>What \<^verbatim>\<open>stat\<close> tells about a path: the kind of the object, and for a file its bytes and mode.\<close>

datatype entry = IsFile bytes bool bool | IsDir

datatype error =
    FileNotFoundError | NotADirectoryError | IsADirectoryError
  | FileExistsError | PermissionError | ValueError

fun kind :: "node \<Rightarrow> entry" where
  "kind (File c r w) = IsFile c r w"
| "kind (Dir es) = IsDir"

fun lookup :: "node \<Rightarrow> path \<Rightarrow> node option" where
  "lookup t [] = Some t"
| "lookup (File c r w) (n # p) = None"
| "lookup (Dir es) (n # p) = (case map_of es n of None \<Rightarrow> None | Some c \<Rightarrow> lookup c p)"

definition stat :: "node \<Rightarrow> path \<Rightarrow> entry option" where
  "stat t p = map_option kind (lookup t p)"

text \<open>The source side: the object at the source root, if there is one.\<close>

definition slookup :: "node option \<Rightarrow> path \<Rightarrow> node option" where
  "slookup src p = (case src of None \<Rightarrow> None | Some t \<Rightarrow> lookup t p)"

definition sstat :: "node option \<Rightarrow> path \<Rightarrow> entry option" where
  "sstat src p = map_option kind (slookup src p)"

text \<open>\<^verbatim>\<open>Path.exists()\<close> and \<^verbatim>\<open>Path.is_dir()\<close>: both answer \<open>False\<close> for a path that cannot
  be resolved, also when a component of it is a regular file.\<close>

definition exists_path :: "node \<Rightarrow> path \<Rightarrow> bool" where
  "exists_path t p = (lookup t p \<noteq> None)"

definition is_dir :: "node \<Rightarrow> path \<Rightarrow> bool" where
  "is_dir t p = (case lookup t p of Some (Dir es) \<Rightarrow> True | _ \<Rightarrow> False)"

definition sexists :: "node option \<Rightarrow> path \<Rightarrow> bool" where
  "sexists src p = (slookup src p \<noteq> None)"

definition sis_dir :: "node option \<Rightarrow> path \<Rightarrow> bool" where
  "sis_dir src p = (case slookup src p of Some (Dir es) \<Rightarrow> True | _ \<Rightarrow> False)"

text \<open>Resolving \<open>p\<close> as a directory: the first missing component gives \<^verbatim>\<open>ENOENT\<close>, a regular
  file on the way (or at the end) gives \<^verbatim>\<open>ENOTDIR\<close>.\<close>

fun walk :: "node \<Rightarrow> path \<Rightarrow> error option" where
  "walk (File c r w) p = Some NotADirectoryError"
| "walk (Dir es) [] = None"
| "walk (Dir es) (n # p) =
     (case map_of es n of None \<Rightarrow> Some FileNotFoundError | Some c \<Rightarrow> walk c p)"

text \<open>Writing the object \<open>x\<close> at \<open>p\<close> (a new entry goes to the end of its directory's
  listing) and removing the object at \<open>p\<close> with everything below it. Both leave the tree as it
  is where the parent of \<open>p\<close> is not a directory; the operations below check that first.\<close>

fun store :: "node \<Rightarrow> path \<Rightarrow> node \<Rightarrow> node" where
  "store t [] x = x"
| "store (File c r w) (n # p) x = File c r w"
| "store (Dir es) (n # p) x =
     (if p = [] then Dir (AList.update n x es)
      else case map_of es n of
             None \<Rightarrow> Dir es
           | Some c \<Rightarrow> Dir (AList.update n (store c p x) es))"

fun erase :: "node \<Rightarrow> path \<Rightarrow> node" where
  "erase t [] = t"
| "erase (File c r w) (n # p) = File c r w"
| "erase (Dir es) (n # p) =
     (if p = [] then Dir (AList.delete n es)
      else case map_of es n of
             None \<Rightarrow> Dir es
           | Some c \<Rightarrow> Dir (AList.update n (erase c p) es))"

text \<open>A directory lists every name once. The height of a tree bounds the length of the
  paths that lead to a directory.\<close>

fun wf_node :: "node \<Rightarrow> bool" where
  "wf_node (File c r w) = True"
| "wf_node (Dir es) = (distinct (map fst es) \<and> (\<forall>e \<in> set es. wf_node (snd e)))"

fun height :: "node \<Rightarrow> nat" where
  "height (File c r w) = 0"
| "height (Dir es) = Suc (fold max (map (\<lambda>e. height (snd e)) es) 0)"

subsection \<open>The library calls the program makes\<close>

text \<open>\<^verbatim>\<open>os.mkdir\<close>.\<close>

definition os_mkdir :: "node \<Rightarrow> path \<Rightarrow> error + node" where
  "os_mkdir t p =
     (if p = [] then Inl FileExistsError
      else case walk t (butlast p) of
             Some e \<Rightarrow> Inl e
           | None \<Rightarrow> if exists_path t p then Inl FileExistsError
                     else Inr (store t p (Dir [])))"

text \<open>\<^verbatim>\<open>Path.mkdir(parents=True, exist_ok=ok)\<close>: on \<^verbatim>\<open>FileNotFoundError\<close> the parent is made
  with \<^verbatim>\<open>parents=True, exist_ok=True\<close> and the directory itself is made again without
  \<^verbatim>\<open>parents\<close>; any other \<^verbatim>\<open>OSError\<close> is raised again unless \<^verbatim>\<open>exist_ok\<close> holds and the path
  is a directory.\<close>

definition mkdir_flat :: "bool \<Rightarrow> node \<Rightarrow> path \<Rightarrow> error + node" where
  "mkdir_flat ok t p =
     (case os_mkdir t p of
        Inr t' \<Rightarrow> Inr t'
      | Inl e \<Rightarrow> if e = FileNotFoundError \<or> \<not> ok \<or> \<not> is_dir t p then Inl e else Inr t)"

function mkdir_parents :: "bool \<Rightarrow> node \<Rightarrow> path \<Rightarrow> error + node" where
  "mkdir_parents ok t p =
     (case os_mkdir t p of
        Inr t' \<Rightarrow> Inr t'
      | Inl e \<Rightarrow>
          if e = FileNotFoundError then
            (if p = [] then Inl e
             else case mkdir_parents True t (butlast p) of
                    Inl e' \<Rightarrow> Inl e'
                  | Inr t' \<Rightarrow> mkdir_flat ok t' p)
          else if \<not> ok \<or> \<not> is_dir t p then Inl e else Inr t)"
  by pat_completeness auto
termination
  by (relation "measure (\<lambda>(ok, t, p). length p)") auto

declare mkdir_parents.simps [simp del]

text \<open>\<^verbatim>\<open>shutil.copy2(src, dst)\<close>: a destination that is a directory stands for the file of the
  source's name inside it; the source is opened for reading first, then the destination for
  writing (truncating it), then the mode of the source is copied onto the destination.\<close>

definition open_write :: "node \<Rightarrow> path \<Rightarrow> error option" where
  "open_write t p =
     (case lookup t p of
        Some (Dir es) \<Rightarrow> Some IsADirectoryError
      | Some (File c r w) \<Rightarrow> if w then None else Some PermissionError
      | None \<Rightarrow> walk t (butlast p))"

definition copy_target :: "node \<Rightarrow> path \<Rightarrow> path \<Rightarrow> path" where
  "copy_target t item dst = (if is_dir t dst then dst @ [last item] else dst)"

definition copy2 :: "node option \<Rightarrow> path \<Rightarrow> node \<Rightarrow> path \<Rightarrow> error + node" where
  "copy2 src item t dst =
     (case slookup src item of
        None \<Rightarrow> Inl FileNotFoundError
      | Some (Dir es) \<Rightarrow> Inl IsADirectoryError
      | Some (File c r w) \<Rightarrow>
          if \<not> r then Inl PermissionError
          else case open_write t (copy_target t item dst) of
                 Some e \<Rightarrow> Inl e
               | None \<Rightarrow> Inr (store t (copy_target t item dst) (File c r w)))"

text \<open>\<^verbatim>\<open>Path.stat().st_size\<close>. The size a directory reports is the platform's business:
  \<open>dsz\<close> gives it from the directory's entries.\<close>

definition st_size :: "((name \<times> node) list \<Rightarrow> nat) \<Rightarrow> node option \<Rightarrow> error + nat" where
  "st_size dsz obj =
     (case obj of
        None \<Rightarrow> Inl FileNotFoundError
      | Some (File c r w) \<Rightarrow> Inr (length c)
      | Some (Dir es) \<Rightarrow> Inr (dsz es))"

text \<open>\<^verbatim>\<open>shutil.rmtree\<close> and \<^verbatim>\<open>Path.unlink\<close>. The root of the volume cannot be removed.\<close>

definition rmtree :: "node \<Rightarrow> path \<Rightarrow> error + node" where
  "rmtree t p =
     (case lookup t p of
        None \<Rightarrow> Inl FileNotFoundError
      | Some (File c r w) \<Rightarrow> Inl NotADirectoryError
      | Some (Dir es) \<Rightarrow> if p = [] then Inl PermissionError else Inr (erase t p))"

definition unlink :: "node \<Rightarrow> path \<Rightarrow> error + node" where
  "unlink t p =
     (case lookup t p of
        None \<Rightarrow> Inl FileNotFoundError
      | Some (Dir es) \<Rightarrow> Inl IsADirectoryError
      | Some (File c r w) \<Rightarrow> if p = [] then Inl PermissionError else Inr (erase t p))"

text \<open>\<^verbatim>\<open>os.scandir\<close>: the names of a directory with the kind each entry caches.\<close>

definition scandir :: "node option \<Rightarrow> error + (name \<times> bool) list" where
  "scandir obj =
     (case obj of
        None \<Rightarrow> Inl FileNotFoundError
      | Some (File c r w) \<Rightarrow> Inl NotADirectoryError
      | Some (Dir es) \<Rightarrow> Inr (map (\<lambda>(n, c). (n, kind c = IsDir)) es))"


section \<open>The program\<close>

text \<open>Every \<^verbatim>\<open>logging\<close> call of the program is an event of the log, in the order of the calls.
  Paths in events are relative to the root they belong to.\<close>

datatype side = Source | Replica

datatype event =
    CreatedReplica
  | CreatedDir path
  | CopiedFile path
  | UpdatedFile path
  | UpdatedSize path
  | DeletedDir path
  | DeletedFile path
  | Md5Failed side path error
  | ReplicaWarning
  | Starting
  | Interval nat
  | Complete
  | Interrupted
  | SyncFailed error

type_synonym state = "node \<times> event list"

text \<open>An exception leaves the file system as it is at that moment: a failed step returns the
  error with the state reached.\<close>

type_synonym outcome = "error \<times> state + state"

subsection \<open>\<^verbatim>\<open>calculate_md5\<close>\<close>

text \<open>\<^verbatim>\<open>hashlib.md5\<close> is the parameter \<open>h\<close>. An \<^verbatim>\<open>IOError\<close> on opening the file is logged and
  \<open>None\<close> is returned.\<close>

definition calculate_md5 ::
  "(bytes \<Rightarrow> 'd) \<Rightarrow> side \<Rightarrow> path \<Rightarrow> node option \<Rightarrow> 'd option \<times> event list" where
  "calculate_md5 h sd p obj =
     (case obj of
        None \<Rightarrow> (None, [Md5Failed sd p FileNotFoundError])
      | Some (Dir es) \<Rightarrow> (None, [Md5Failed sd p IsADirectoryError])
      | Some (File c r w) \<Rightarrow>
          if r then (Some (h c), []) else (None, [Md5Failed sd p PermissionError]))"

subsection \<open>\<^verbatim>\<open>for item in root.rglob("*")\<close>\<close>

text \<open>The generator is lazy: it lists a directory, hands each entry to the loop body, and only
  then lists the directory again to descend into the subdirectories that are there at that
  moment. \<open>ls\<close> lists a directory of the tree walked in the current state; the fuel bounds
  the depth of the descent, and \<open>None\<close> is running out of it.\<close>

fun for_each :: "('a \<Rightarrow> 's \<Rightarrow> error \<times> 's + 's) \<Rightarrow> 'a list \<Rightarrow> 's \<Rightarrow> error \<times> 's + 's" where
  "for_each f [] s = Inr s"
| "for_each f (x # xs) s = (case f x s of Inl e \<Rightarrow> Inl e | Inr s' \<Rightarrow> for_each f xs s')"

fun rglob_loop ::
    "nat \<Rightarrow> ('s \<Rightarrow> path \<Rightarrow> error + (name \<times> bool) list) \<Rightarrow> (path \<Rightarrow> 's \<Rightarrow> error \<times> 's + 's)
       \<Rightarrow> path \<Rightarrow> 's \<Rightarrow> (error \<times> 's + 's) option"
  and rglob_dirs ::
    "nat \<Rightarrow> ('s \<Rightarrow> path \<Rightarrow> error + (name \<times> bool) list) \<Rightarrow> (path \<Rightarrow> 's \<Rightarrow> error \<times> 's + 's)
       \<Rightarrow> path \<Rightarrow> name list \<Rightarrow> 's \<Rightarrow> (error \<times> 's + 's) option" where
  "rglob_loop 0 ls body d s = None"
| "rglob_loop (Suc k) ls body d s =
     (case ls s d of
        Inl e \<Rightarrow> Some (Inl (e, s))
      | Inr es \<Rightarrow>
          (case for_each (\<lambda>n. body (d @ [n])) (map fst es) s of
             Inl e \<Rightarrow> Some (Inl e)
           | Inr s1 \<Rightarrow>
               (case ls s1 d of
                  Inl e \<Rightarrow> Some (Inl (e, s1))
                | Inr es1 \<Rightarrow> rglob_dirs k ls body d (map fst (filter snd es1)) s1)))"
| "rglob_dirs k ls body d [] s = Some (Inr s)"
| "rglob_dirs k ls body d (n # ns) s =
     (case rglob_loop k ls body (d @ [n]) s of
        None \<Rightarrow> None
      | Some (Inl e) \<Rightarrow> Some (Inl e)
      | Some (Inr s') \<Rightarrow> rglob_dirs k ls body d ns s')"

text \<open>\<^verbatim>\<open>root.rglob("*")\<close> yields nothing when the root is not a directory.\<close>

subsection \<open>\<^verbatim>\<open>sync_directories\<close>\<close>

definition recopy ::
  "node option \<Rightarrow> path \<Rightarrow> path \<Rightarrow> event \<Rightarrow> state \<Rightarrow> outcome" where
  "recopy src rpath p ev s =
     (case copy2 src p (fst s) (rpath @ p) of
        Inl e \<Rightarrow> Inl (e, s)
      | Inr t' \<Rightarrow> Inr (t', snd s @ [ev]))"

text \<open>The body of the first loop (lines 44 to 67) for the source item at the relative path
  \<open>p\<close>.\<close>

definition sync_item ::
  "(bytes \<Rightarrow> 'd) \<Rightarrow> ((name \<times> node) list \<Rightarrow> nat) \<Rightarrow> node option \<Rightarrow> path \<Rightarrow> path \<Rightarrow> state \<Rightarrow> outcome" where
  "sync_item h dsz src rpath p s =
     (if sis_dir src p then
        (if \<not> exists_path (fst s) (rpath @ p) then
           (case mkdir_parents False (fst s) (rpath @ p) of
              Inl e \<Rightarrow> Inl (e, s)
            | Inr t' \<Rightarrow> Inr (t', snd s @ [CreatedDir p]))
         else Inr s)
      else
        (if \<not> exists_path (fst s) (rpath @ p) then recopy src rpath p (CopiedFile p) s
         else
           (case st_size dsz (slookup src p) of
              Inl e \<Rightarrow> Inl (e, s)
            | Inr n \<Rightarrow>
                (case st_size dsz (lookup (fst s) (rpath @ p)) of
                   Inl e \<Rightarrow> Inl (e, s)
                 | Inr m \<Rightarrow>
                     if n = m then
                       (case calculate_md5 h Source p (slookup src p) of
                          (source_md5, l1) \<Rightarrow>
                            (case calculate_md5 h Replica p (lookup (fst s) (rpath @ p)) of
                               (replica_md5, l2) \<Rightarrow>
                                 if source_md5 \<noteq> replica_md5
                                 then recopy src rpath p (UpdatedFile p) (fst s, snd s @ l1 @ l2)
                                 else Inr (fst s, snd s @ l1 @ l2)))
                     else recopy src rpath p (UpdatedSize p) s))))"

text \<open>The body of the second loop (lines 71 to 80) for the replica item at the relative path
  \<open>p\<close>.\<close>

definition prune_item :: "node option \<Rightarrow> path \<Rightarrow> path \<Rightarrow> state \<Rightarrow> outcome" where
  "prune_item src rpath p s =
     (if \<not> sexists src p then
        (if is_dir (fst s) (rpath @ p) then
           (case rmtree (fst s) (rpath @ p) of
              Inl e \<Rightarrow> Inl (e, s)
            | Inr t' \<Rightarrow> Inr (t', snd s @ [DeletedDir p]))
         else
           (case unlink (fst s) (rpath @ p) of
              Inl e \<Rightarrow> Inl (e, s)
            | Inr t' \<Rightarrow> Inr (t', snd s @ [DeletedFile p])))
      else Inr s)"

text \<open>Lines 37 to 40, the first loop and the second loop.\<close>

definition ensure_replica :: "path \<Rightarrow> state \<Rightarrow> outcome" where
  "ensure_replica rpath s =
     (if \<not> exists_path (fst s) rpath then
        (case mkdir_parents False (fst s) rpath of
           Inl e \<Rightarrow> Inl (e, s)
         | Inr t' \<Rightarrow> Inr (t', snd s @ [CreatedReplica]))
      else Inr s)"

text \<open>What the two generators list: the first walks the source tree, the second the replica
  tree as it is at that moment.\<close>

definition list_source :: "node option \<Rightarrow> state \<Rightarrow> path \<Rightarrow> error + (name \<times> bool) list" where
  "list_source src s d = scandir (slookup src d)"

definition list_replica :: "path \<Rightarrow> state \<Rightarrow> path \<Rightarrow> error + (name \<times> bool) list" where
  "list_replica rpath s d = scandir (lookup (fst s) (rpath @ d))"

definition propagate ::
  "nat \<Rightarrow> (bytes \<Rightarrow> 'd) \<Rightarrow> ((name \<times> node) list \<Rightarrow> nat) \<Rightarrow> node option \<Rightarrow> path \<Rightarrow> state \<Rightarrow> outcome option" where
  "propagate fuel h dsz src rpath s =
     (if sis_dir src [] then
        rglob_loop fuel (list_source src) (sync_item h dsz src rpath) [] s
      else Some (Inr s))"

definition prune :: "nat \<Rightarrow> node option \<Rightarrow> path \<Rightarrow> state \<Rightarrow> outcome option" where
  "prune fuel src rpath s =
     (if is_dir (fst s) rpath then
        rglob_loop fuel (list_replica rpath) (prune_item src rpath) [] s
      else Some (Inr s))"

definition sync_directories ::
  "nat \<Rightarrow> (bytes \<Rightarrow> 'd) \<Rightarrow> ((name \<times> node) list \<Rightarrow> nat) \<Rightarrow> node option \<Rightarrow> path \<Rightarrow> state \<Rightarrow> outcome option" where
  "sync_directories fuel h dsz src rpath s =
     (case ensure_replica rpath s of
        Inl e \<Rightarrow> Some (Inl e)
      | Inr s0 \<Rightarrow>
          (case propagate fuel h dsz src rpath s0 of
             None \<Rightarrow> None
           | Some (Inl e) \<Rightarrow> Some (Inl e)
           | Some (Inr s1) \<Rightarrow> prune fuel src rpath s1))"


subsection \<open>\<^verbatim>\<open>main\<close> and the script's entry point\<close>

text \<open>The loop of \<^verbatim>\<open>main\<close> runs until an exception leaves it. What the world does is a
  schedule: for each pass the source tree that pass finds, and whether the operator
  interrupts the sleep after it. A schedule that ends leaves the loop running.\<close>

datatype stop = StillRunning | StoppedByUser | StoppedByError error

fun run_loop ::
  "nat \<Rightarrow> (bytes \<Rightarrow> 'd) \<Rightarrow> ((name \<times> node) list \<Rightarrow> nat) \<Rightarrow> path \<Rightarrow> (node option \<times> bool) list
     \<Rightarrow> state \<Rightarrow> (stop \<times> state) option" where
  "run_loop fuel h dsz rpath [] s = Some (StillRunning, s)"
| "run_loop fuel h dsz rpath ((src, interrupt) # rest) s =
     (case sync_directories fuel h dsz src rpath s of
        None \<Rightarrow> None
      | Some (Inl (e, s')) \<Rightarrow> Some (StoppedByError e, (fst s', snd s' @ [SyncFailed e]))
      | Some (Inr s') \<Rightarrow>
          if interrupt then Some (StoppedByUser, (fst s', snd s' @ [Complete, Interrupted]))
          else run_loop fuel h dsz rpath rest (fst s', snd s' @ [Complete]))"

definition main ::
  "nat \<Rightarrow> (bytes \<Rightarrow> 'd) \<Rightarrow> ((name \<times> node) list \<Rightarrow> nat) \<Rightarrow> path \<Rightarrow> nat \<Rightarrow> (node option \<times> bool) list
     \<Rightarrow> state \<Rightarrow> (stop \<times> state) option" where
  "main fuel h dsz rpath interval sched s =
     run_loop fuel h dsz rpath sched (fst s, snd s @ [Starting, Interval interval])"

text \<open>Lines 114 to 126: \<open>src0\<close> is the source root as the script finds it at startup.\<close>

definition entry ::
  "nat \<Rightarrow> (bytes \<Rightarrow> 'd) \<Rightarrow> ((name \<times> node) list \<Rightarrow> nat) \<Rightarrow> node option \<Rightarrow> path \<Rightarrow> nat
     \<Rightarrow> (node option \<times> bool) list \<Rightarrow> state \<Rightarrow> error + (stop \<times> state) option" where
  "entry fuel h dsz src0 rpath interval sched s =
     (if \<not> sis_dir src0 [] then Inl ValueError
      else Inr (main fuel h dsz rpath interval sched
                  (fst s, snd s @ (if \<not> is_dir (fst s) rpath then [ReplicaWarning] else []))))"

section \<open>MD5\<close>

text \<open>The digest \<^verbatim>\<open>hashlib.md5\<close> computes (RFC 1321), as four 32-bit words.\<close>

type_synonym digest = "32 word \<times> 32 word \<times> 32 word \<times> 32 word"

definition md5_table :: "(nat \<times> 32 word \<times> nat \<times> nat) list" where
  "md5_table =
    [(0, 0xd76aa478, 7, 0), (0, 0xe8c7b756, 12, 1), (0, 0x242070db, 17, 2),
     (0, 0xc1bdceee, 22, 3), (0, 0xf57c0faf, 7, 4), (0, 0x4787c62a, 12, 5),
     (0, 0xa8304613, 17, 6), (0, 0xfd469501, 22, 7), (0, 0x698098d8, 7, 8),
     (0, 0x8b44f7af, 12, 9), (0, 0xffff5bb1, 17, 10), (0, 0x895cd7be, 22, 11),
     (0, 0x6b901122, 7, 12), (0, 0xfd987193, 12, 13), (0, 0xa679438e, 17, 14),
     (0, 0x49b40821, 22, 15), (1, 0xf61e2562, 5, 1), (1, 0xc040b340, 9, 6),
     (1, 0x265e5a51, 14, 11), (1, 0xe9b6c7aa, 20, 0), (1, 0xd62f105d, 5, 5),
     (1, 0x02441453, 9, 10), (1, 0xd8a1e681, 14, 15), (1, 0xe7d3fbc8, 20, 4),
     (1, 0x21e1cde6, 5, 9), (1, 0xc33707d6, 9, 14), (1, 0xf4d50d87, 14, 3),
     (1, 0x455a14ed, 20, 8), (1, 0xa9e3e905, 5, 13), (1, 0xfcefa3f8, 9, 2),
     (1, 0x676f02d9, 14, 7), (1, 0x8d2a4c8a, 20, 12), (2, 0xfffa3942, 4, 5),
     (2, 0x8771f681, 11, 8), (2, 0x6d9d6122, 16, 11), (2, 0xfde5380c, 23, 14),
     (2, 0xa4beea44, 4, 1), (2, 0x4bdecfa9, 11, 4), (2, 0xf6bb4b60, 16, 7),
     (2, 0xbebfbc70, 23, 10), (2, 0x289b7ec6, 4, 13), (2, 0xeaa127fa, 11, 0),
     (2, 0xd4ef3085, 16, 3), (2, 0x04881d05, 23, 6), (2, 0xd9d4d039, 4, 9),
     (2, 0xe6db99e5, 11, 12), (2, 0x1fa27cf8, 16, 15), (2, 0xc4ac5665, 23, 2),
     (3, 0xf4292244, 6, 0), (3, 0x432aff97, 10, 7), (3, 0xab9423a7, 15, 14),
     (3, 0xfc93a039, 21, 5), (3, 0x655b59c3, 6, 12), (3, 0x8f0ccc92, 10, 3),
     (3, 0xffeff47d, 15, 10), (3, 0x85845dd1, 21, 1), (3, 0x6fa87e4f, 6, 8),
     (3, 0xfe2ce6e0, 10, 15), (3, 0xa3014314, 15, 6), (3, 0x4e0811a1, 21, 13),
     (3, 0xf7537e82, 6, 4), (3, 0xbd3af235, 10, 11), (3, 0x2ad7d2bb, 15, 2),
     (3, 0xeb86d391, 21, 9)]"

definition rotl32 :: "nat \<Rightarrow> 32 word \<Rightarrow> 32 word" where
  "rotl32 n w = (push_bit n w) OR (drop_bit (32 - n) w)"

definition md5_F :: "nat \<Rightarrow> 32 word \<Rightarrow> 32 word \<Rightarrow> 32 word \<Rightarrow> 32 word" where
  "md5_F q b c d =
     (if q = 0 then (b AND c) OR (NOT b AND d)
      else if q = 1 then (d AND b) OR (NOT d AND c)
      else if q = 2 then b XOR c XOR d
      else c XOR (b OR NOT d))"

fun md5_rounds :: "32 word list \<Rightarrow> (nat \<times> 32 word \<times> nat \<times> nat) list \<Rightarrow> digest \<Rightarrow> digest" where
  "md5_rounds m [] st = st"
| "md5_rounds m ((q, k, s, g) # rs) (a, b, c, d) =
     md5_rounds m rs (d, b + rotl32 s (md5_F q b c d + a + k + m ! g), b, c)"

fun le32 :: "bytes \<Rightarrow> 32 word list" where
  "le32 (b0 # b1 # b2 # b3 # bs) =
     (ucast b0 OR push_bit 8 (ucast b1) OR push_bit 16 (ucast b2) OR push_bit 24 (ucast b3)) # le32 bs"
| "le32 _ = []"

fun md5_blocks :: "nat \<Rightarrow> 32 word list \<Rightarrow> digest \<Rightarrow> digest" where
  "md5_blocks 0 ws st = st"
| "md5_blocks (Suc n) ws (a0, b0, c0, d0) =
     (case md5_rounds (take 16 ws) md5_table (a0, b0, c0, d0) of
        (a, b, c, d) \<Rightarrow> md5_blocks n (drop 16 ws) (a0 + a, b0 + b, c0 + c, d0 + d))"

fun le_bytes :: "nat \<Rightarrow> nat \<Rightarrow> bytes" where
  "le_bytes 0 n = []"
| "le_bytes (Suc k) n = of_nat (n mod 256) # le_bytes k (n div 256)"

definition md5_pad :: "bytes \<Rightarrow> bytes" where
  "md5_pad bs =
     bs @ [0x80] @ replicate ((119 - length bs mod 64) mod 64) 0 @ le_bytes 8 (length bs * 8)"

definition md5 :: "bytes \<Rightarrow> digest" where
  "md5 bs = (let ws = le32 (md5_pad bs) in
     md5_blocks (length ws div 16) ws (0x67452301, 0xefcdab89, 0x98badcfe, 0x10325476))"

section \<open>Vocabulary of the statements\<close>

text \<open>An event of the second loop is sound when it reports the removal of a path that the
  source does not have, whose parent the source has (or is the root), and that was a
  directory (for \<open>DeletedDir\<close>) or a file (for \<open>DeletedFile\<close>) in the replica \<open>vol\<close>.\<close>

definition pruned_event :: "node option \<Rightarrow> path \<Rightarrow> node \<Rightarrow> event \<Rightarrow> bool" where
  "pruned_event src rpath vol ev =
     (case ev of
        DeletedDir p \<Rightarrow> p \<noteq> [] \<and> sstat src p = None \<and> stat vol (rpath @ p) = Some IsDir
                         \<and> (butlast p = [] \<or> sstat src (butlast p) \<noteq> None)
      | DeletedFile p \<Rightarrow> p \<noteq> [] \<and> sstat src p = None
                         \<and> (\<exists>c r w. stat vol (rpath @ p) = Some (IsFile c r w))
                         \<and> (butlast p = [] \<or> sstat src (butlast p) \<noteq> None)
      | _ \<Rightarrow> False)"

text \<open>What \<^verbatim>\<open>calculate_md5\<close> returns for an object, and what the first loop leaves at the
  replica path of a source entry: \<open>settle h e x\<close> for the source entry \<open>e\<close> and the replica
  entry \<open>x\<close> found there.\<close>

fun md5_of :: "(bytes \<Rightarrow> 'd) \<Rightarrow> entry \<Rightarrow> 'd option" where
  "md5_of h (IsFile c r w) = (if r then Some (h c) else None)"
| "md5_of h IsDir = None"

fun settle :: "(bytes \<Rightarrow> 'd) \<Rightarrow> entry \<Rightarrow> entry option \<Rightarrow> entry" where
  "settle h IsDir None = IsDir"
| "settle h IsDir (Some x) = x"
| "settle h (IsFile c r w) None = IsFile c r w"
| "settle h (IsFile c r w) (Some IsDir) = IsDir"
| "settle h (IsFile c r w) (Some (IsFile c' r' w')) =
     (if length c = length c' \<and> md5_of h (IsFile c r w) = md5_of h (IsFile c' r' w')
      then IsFile c' r' w' else IsFile c r w)"

text \<open>The kinds of events, and the case in which the first loop logs a failed digest for a
  pair of files: equal sizes and one of the two unreadable.\<close>

fun is_deletion :: "event \<Rightarrow> bool" where
  "is_deletion (DeletedDir p) = True"
| "is_deletion (DeletedFile p) = True"
| "is_deletion ev = False"

fun is_failure :: "event \<Rightarrow> bool" where
  "is_failure (Md5Failed sd p e) = True"
| "is_failure ev = False"

fun digest_fails :: "entry \<Rightarrow> entry option \<Rightarrow> bool" where
  "digest_fails (IsFile c r w) (Some (IsFile c' r' w')) = (length c = length c' \<and> (\<not> r \<or> \<not> r'))"
| "digest_fails e x = False"

text \<open>What a part of the first loop that covers the source paths \<open>covered\<close> does: at the
  replica path of each covered source entry it leaves what \<open>settle\<close> says, the replica paths
  of the other source entries stay as they are, the tree stays well formed, nothing is
  logged as deleted, and each failed digest of a covered pair of files is logged.\<close>

definition propagate_post ::
  "(bytes \<Rightarrow> 'd) \<Rightarrow> node option \<Rightarrow> path \<Rightarrow> (path \<Rightarrow> bool) \<Rightarrow> state \<Rightarrow> state \<Rightarrow> bool" where
  "propagate_post h src rpath covered s s' =
     ((\<forall>q e. sstat src q = Some e \<longrightarrow>
          stat (fst s') (rpath @ q) =
            (if covered q then Some (settle h e (stat (fst s) (rpath @ q)))
             else stat (fst s) (rpath @ q)))
      \<and> (wf_node (fst s) \<longrightarrow> wf_node (fst s'))
      \<and> (\<exists>new. snd s' = snd s @ new
             \<and> (\<forall>ev\<in>set new. \<not> is_deletion ev)
             \<and> (\<forall>q e. covered q \<and> sstat src q = Some e
                       \<and> digest_fails e (stat (fst s) (rpath @ q))
                     \<longrightarrow> (\<exists>sd err. Md5Failed sd q err \<in> set new))))"

text \<open>The calls of the loop body: \<open>calls ls body k d s p s1\<close> says that the walk of the
  directory \<open>d\<close>, started in the state \<open>s\<close> with fuel \<open>k\<close>, calls the body for the item \<open>p\<close>
  in the state \<open>s1\<close>. The item is an entry of \<open>d\<close>, called when the bodies of the entries
  listed before it have returned; or it is an item of the walk of a subdirectory of \<open>d\<close>,
  begun when the bodies of all entries of \<open>d\<close> and the walks of the subdirectories listed
  before that one have returned.\<close>

inductive calls ::
  "('s \<Rightarrow> path \<Rightarrow> error + (name \<times> bool) list) \<Rightarrow> (path \<Rightarrow> 's \<Rightarrow> error \<times> 's + 's)
     \<Rightarrow> nat \<Rightarrow> path \<Rightarrow> 's \<Rightarrow> path \<Rightarrow> 's \<Rightarrow> bool"
  for ls :: "'s \<Rightarrow> path \<Rightarrow> error + (name \<times> bool) list"
    and body :: "path \<Rightarrow> 's \<Rightarrow> error \<times> 's + 's" where
  entry_call:
    "ls s d = Inr es \<Longrightarrow> map fst es = xs @ n # ys
     \<Longrightarrow> for_each (\<lambda>m. body (d @ [m])) xs s = Inr s1
     \<Longrightarrow> calls ls body (Suc k) d s (d @ [n]) s1"
| descent_call:
    "ls s d = Inr es \<Longrightarrow> for_each (\<lambda>m. body (d @ [m])) (map fst es) s = Inr s1
     \<Longrightarrow> ls s1 d = Inr es1 \<Longrightarrow> map fst (filter snd es1) = ds @ m # ds'
     \<Longrightarrow> rglob_dirs k ls body d ds s1 = Some (Inr s2)
     \<Longrightarrow> calls ls body k (d @ [m]) s2 p s3
     \<Longrightarrow> calls ls body (Suc k) d s p s3"

text \<open>A source entry and a replica entry at the same relative path disagree in type when one
  is a file and the other a directory.\<close>

fun type_mismatch :: "entry option \<Rightarrow> entry option \<Rightarrow> bool" where
  "type_mismatch (Some IsDir) (Some (IsFile c r w)) = True"
| "type_mismatch (Some (IsFile c r w)) (Some IsDir) = True"
| "type_mismatch se re = False"

text \<open>A replica path is stale below the directory \<open>d\<close> when it lies strictly below \<open>d\<close> and
  the source has nothing at its relative path. The second loop, started in \<open>d\<close>, removes
  the stale paths and nothing else, keeps the tree well formed and logs sound events only.\<close>

definition stale :: "node option \<Rightarrow> path \<Rightarrow> path \<Rightarrow> path \<Rightarrow> bool" where
  "stale src rpath d q = (\<exists>r. r \<noteq> [] \<and> q = rpath @ d @ r \<and> sstat src (d @ r) = None)"

definition prune_post :: "node option \<Rightarrow> path \<Rightarrow> (path \<Rightarrow> bool) \<Rightarrow> state \<Rightarrow> state \<Rightarrow> bool" where
  "prune_post src rpath gone s s' =
     ((\<forall>q. stat (fst s') q = (if gone q then None else stat (fst s) q))
      \<and> wf_node (fst s')
      \<and> (\<exists>new. snd s' = snd s @ new \<and> (\<forall>ev\<in>set new. pruned_event src rpath (fst s) ev)))"

section \<open>Two files with one digest\<close>

text \<open>Two byte strings of 128 bytes that differ in six bytes and have the same MD5 digest
  (the collision published by Wang and Yu in 2004).\<close>

definition collision_a :: bytes where
  "collision_a =
    [0xd1, 0x31, 0xdd, 0x02, 0xc5, 0xe6, 0xee, 0xc4, 0x69, 0x3d, 0x9a, 0x06,
     0x98, 0xaf, 0xf9, 0x5c, 0x2f, 0xca, 0xb5, 0x87, 0x12, 0x46, 0x7e, 0xab,
     0x40, 0x04, 0x58, 0x3e, 0xb8, 0xfb, 0x7f, 0x89, 0x55, 0xad, 0x34, 0x06,
     0x09, 0xf4, 0xb3, 0x02, 0x83, 0xe4, 0x88, 0x83, 0x25, 0x71, 0x41, 0x5a,
     0x08, 0x51, 0x25, 0xe8, 0xf7, 0xcd, 0xc9, 0x9f, 0xd9, 0x1d, 0xbd, 0xf2,
     0x80, 0x37, 0x3c, 0x5b, 0xd8, 0x82, 0x3e, 0x31, 0x56, 0x34, 0x8f, 0x5b,
     0xae, 0x6d, 0xac, 0xd4, 0x36, 0xc9, 0x19, 0xc6, 0xdd, 0x53, 0xe2, 0xb4,
     0x87, 0xda, 0x03, 0xfd, 0x02, 0x39, 0x63, 0x06, 0xd2, 0x48, 0xcd, 0xa0,
     0xe9, 0x9f, 0x33, 0x42, 0x0f, 0x57, 0x7e, 0xe8, 0xce, 0x54, 0xb6, 0x70,
     0x80, 0xa8, 0x0d, 0x1e, 0xc6, 0x98, 0x21, 0xbc, 0xb6, 0xa8, 0x83, 0x93,
     0x96, 0xf9, 0x65, 0x2b, 0x6f, 0xf7, 0x2a, 0x70]"

definition collision_b :: bytes where
  "collision_b =
    [0xd1, 0x31, 0xdd, 0x02, 0xc5, 0xe6, 0xee, 0xc4, 0x69, 0x3d, 0x9a, 0x06,
     0x98, 0xaf, 0xf9, 0x5c, 0x2f, 0xca, 0xb5, 0x07, 0x12, 0x46, 0x7e, 0xab,
     0x40, 0x04, 0x58, 0x3e, 0xb8, 0xfb, 0x7f, 0x89, 0x55, 0xad, 0x34, 0x06,
     0x09, 0xf4, 0xb3, 0x02, 0x83, 0xe4, 0x88, 0x83, 0x25, 0xf1, 0x41, 0x5a,
     0x08, 0x51, 0x25, 0xe8, 0xf7, 0xcd, 0xc9, 0x9f, 0xd9, 0x1d, 0xbd, 0x72,
     0x80, 0x37, 0x3c, 0x5b, 0xd8, 0x82, 0x3e, 0x31, 0x56, 0x34, 0x8f, 0x5b,
     0xae, 0x6d, 0xac, 0xd4, 0x36, 0xc9, 0x19, 0xc6, 0xdd, 0x53, 0xe2, 0x34,
     0x87, 0xda, 0x03, 0xfd, 0x02, 0x39, 0x63, 0x06, 0xd2, 0x48, 0xcd, 0xa0,
     0xe9, 0x9f, 0x33, 0x42, 0x0f, 0x57, 0x7e, 0xe8, 0xce, 0x54, 0xb6, 0x70,
     0x80, 0x28, 0x0d, 0x1e, 0xc6, 0x98, 0x21, 0xbc, 0xb6, 0xa8, 0x83, 0x93,
     0x96, 0xf9, 0x65, 0xab, 0x6f, 0xf7, 0x2a, 0x70]"

section \<open>A concrete platform\<close>

text \<open>Where a directory reports one block as its size, as on ext4.\<close>

definition ext4_dir_size :: "(name \<times> node) list \<Rightarrow> nat" where
  "ext4_dir_size es = 4096"

section \<open>Facts about the file system operations\<close>

lemma lookup_append:
  "lookup t (p @ q) = (case lookup t p of None \<Rightarrow> None | Some c \<Rightarrow> lookup c q)"
  by (induction t p rule: lookup.induct) (auto split: option.splits)

lemma stat_Nil [simp]: "stat t [] = Some (kind t)"
  by (simp add: stat_def)

lemma stat_File_Cons [simp]: "stat (File c r w) (n # p) = None"
  by (simp add: stat_def)

lemma stat_Dir_Cons:
  "stat (Dir es) (n # p) = (case map_of es n of None \<Rightarrow> None | Some c \<Rightarrow> stat c p)"
  by (simp add: stat_def split: option.splits)

lemma stat_File: "stat (File c r w) p = (if p = [] then Some (IsFile c r w) else None)"
  by (cases p) auto

lemma walk_None_iff: "walk t p = None \<longleftrightarrow> stat t p = Some IsDir"
  by (induction t p rule: walk.induct) (auto simp: stat_Dir_Cons stat_File split: option.splits)

lemma walk_error: "walk t p = Some e \<Longrightarrow> e = FileNotFoundError \<or> e = NotADirectoryError"
  by (induction t p rule: walk.induct) (auto split: option.splits)

lemma stat_store:
  "p \<noteq> [] \<Longrightarrow> walk t (butlast p) = None \<Longrightarrow>
   stat (store t p x) q = (if prefix p q then stat x (drop (length p) q) else stat t q)"
proof (induction t p x arbitrary: q rule: store.induct)
  case (1 t x)
  then show ?case by simp
next
  case (2 c r w n p x)
  then show ?case by simp
next
  case (3 es n p x)
  show ?case
  proof (cases q)
    case Nil
    then show ?thesis by (simp split: option.splits)
  next
    case (Cons m q')
    show ?thesis
    proof (cases "p = []")
      case True
      then show ?thesis using Cons
        by (simp add: stat_Dir_Cons update_conv' split: option.splits)
    next
      case False
      then obtain c where c: "map_of es n = Some c" and w: "walk c (butlast p) = None"
        using 3(3) by (auto split: option.splits)
      have ih: "\<And>q. stat (store c p x) q = (if prefix p q then stat x (drop (length p) q) else stat c q)"
        using 3(1)[OF False c False w] .
      show ?thesis using False Cons c ih
        by (simp add: stat_Dir_Cons update_conv')
    qed
  qed
qed

lemma stat_erase:
  "p \<noteq> [] \<Longrightarrow> stat (erase t p) q = (if prefix p q then None else stat t q)"
proof (induction t p arbitrary: q rule: erase.induct)
  case (1 t)
  then show ?case by simp
next
  case (2 c r w n p)
  then show ?case by (cases q) auto
next
  case (3 es n p)
  show ?case
  proof (cases q)
    case Nil
    then show ?thesis by (simp split: option.splits)
  next
    case (Cons m q')
    show ?thesis
    proof (cases "p = []")
      case True
      then show ?thesis using Cons
        by (simp add: stat_Dir_Cons delete_conv' split: option.splits)
    next
      case False
      show ?thesis
      proof (cases "map_of es n")
        case None
        then show ?thesis using False Cons by (auto simp: stat_Dir_Cons)
      next
        case (Some c)
        have ih: "\<And>q. stat (erase c p) q = (if prefix p q then None else stat c q)"
          using 3(1)[OF False Some False] .
        show ?thesis using False Cons Some ih
          by (simp add: stat_Dir_Cons update_conv')
      qed
    qed
  qed
qed

lemma exists_path_stat: "exists_path t p \<longleftrightarrow> stat t p \<noteq> None"
  by (simp add: exists_path_def stat_def)

lemma is_dir_stat: "is_dir t p \<longleftrightarrow> stat t p = Some IsDir"
  by (auto simp: is_dir_def stat_def split: option.splits node.splits)

lemma sexists_sstat: "sexists src p \<longleftrightarrow> sstat src p \<noteq> None"
  by (simp add: sexists_def sstat_def)

lemma sis_dir_sstat: "sis_dir src p \<longleftrightarrow> sstat src p = Some IsDir"
  by (auto simp: sis_dir_def sstat_def split: option.splits node.splits)

lemma stat_append:
  "stat t (p @ q) = (case lookup t p of None \<Rightarrow> None | Some c \<Rightarrow> stat c q)"
  by (simp add: stat_def lookup_append split: option.splits)

lemma stat_None_append: "stat t p = None \<Longrightarrow> stat t (p @ q) = None"
proof -
  assume "stat t p = None"
  then have "lookup t p = None" by (simp add: stat_def)
  then show ?thesis by (simp add: stat_append)
qed

lemma stat_prefix_exists: "stat t (p @ q) \<noteq> None \<Longrightarrow> stat t p \<noteq> None"
  by (rule notI) (simp add: stat_None_append)

lemma stat_below_dir:
  assumes "stat t (p @ q) \<noteq> None" and "q \<noteq> []"
  shows "stat t p = Some IsDir"
proof (cases "lookup t p")
  case None
  then show ?thesis using assms(1) by (simp add: stat_append)
next
  case (Some c)
  then have s: "stat c q \<noteq> None" using assms(1) by (simp add: stat_append)
  have "kind c = IsDir"
  proof (cases c)
    case (File x1 x2 x3)
    then show ?thesis using s assms(2) by (simp add: stat_File)
  next
    case (Dir es)
    then show ?thesis by simp
  qed
  with Some show ?thesis by (simp add: stat_def)
qed



lemma os_mkdir_Inr:
  "os_mkdir t p = Inr t' \<longleftrightarrow>
     p \<noteq> [] \<and> stat t (butlast p) = Some IsDir \<and> stat t p = None \<and> t' = store t p (Dir [])"
proof (cases "walk t (butlast p)")
  case None
  then have "stat t (butlast p) = Some IsDir" by (simp add: walk_None_iff)
  with None show ?thesis by (auto simp: os_mkdir_def exists_path_stat)
next
  case (Some e)
  then have "stat t (butlast p) \<noteq> Some IsDir" using walk_None_iff[of t "butlast p"] by simp
  with Some show ?thesis by (auto simp: os_mkdir_def)
qed

lemma os_mkdir_Inl:
  "os_mkdir t p = Inl e \<Longrightarrow>
     e = FileExistsError \<or> e = NotADirectoryError \<or> e = FileNotFoundError"
  by (auto simp: os_mkdir_def split: option.splits if_splits dest: walk_error)

lemma os_mkdir_ENOENT:
  "os_mkdir t p = Inl FileNotFoundError \<Longrightarrow> p \<noteq> [] \<and> walk t (butlast p) = Some FileNotFoundError"
  by (auto simp: os_mkdir_def split: option.splits if_splits)

lemma stat_Dir_Nil: "stat (Dir []) q = (if q = [] then Some IsDir else None)"
  by (cases q) (simp_all add: stat_Dir_Cons)

lemma prefix_length_ge_eq: "prefix p q \<Longrightarrow> length q \<le> length p \<longleftrightarrow> q = p"
  by (auto simp: prefix_def)

lemma stat_beyond_None:
  assumes "stat t p = None" and "prefix p q"
  shows "stat t q = None"
proof -
  from assms(2) obtain r where "q = p @ r" by (auto simp: prefix_def)
  with assms(1) show ?thesis by (simp add: stat_None_append)
qed

lemma stat_beyond_File:
  assumes "stat t p = Some (IsFile c r w)" and "prefix p q" and "q \<noteq> p"
  shows "stat t q = None"
proof -
  from assms(2,3) obtain r where q: "q = p @ r" and r: "r \<noteq> []" by (auto simp: prefix_def)
  show ?thesis
  proof (rule ccontr)
    assume "stat t q \<noteq> None"
    then have "stat t p = Some IsDir" using q r stat_below_dir by simp
    with assms(1) show False by simp
  qed
qed

lemma stat_os_mkdir:
  assumes "os_mkdir t p = Inr t'"
  shows "stat t' q = (if q = p then Some IsDir else stat t q)"
proof -
  from assms have p: "p \<noteq> []" and par: "walk t (butlast p) = None" and
    none: "stat t p = None" and t': "t' = store t p (Dir [])"
    by (simp_all add: os_mkdir_Inr walk_None_iff)
  show ?thesis
  proof (cases "prefix p q")
    case True
    then show ?thesis
      using stat_store[OF p par, of "Dir []" q] t' stat_beyond_None[OF none True]
      by (simp add: stat_Dir_Nil prefix_length_ge_eq)
  next
    case False
    then have "q \<noteq> p" by auto
    then show ?thesis using stat_store[OF p par, of "Dir []" q] t' False by simp
  qed
qed


lemma stat_mkdir_flat:
  assumes "mkdir_flat ok t p = Inr t'"
  shows "stat t' q = (if q = p \<and> stat t p = None then Some IsDir else stat t q)"
proof (cases "os_mkdir t p")
  case (Inr t1)
  then have "t' = t1" using assms by (simp add: mkdir_flat_def)
  moreover have "stat t p = None" using Inr by (simp add: os_mkdir_Inr)
  ultimately show ?thesis using stat_os_mkdir[OF Inr, of q] by simp
next
  case (Inl e)
  then have "t' = t" and "is_dir t p" using assms by (auto simp: mkdir_flat_def split: if_splits)
  then show ?thesis by (auto simp: is_dir_stat)
qed

lemma prefix_butlast:
  assumes "p \<noteq> []"
  shows "prefix q p \<longleftrightarrow> q = p \<or> prefix q (butlast p)"
  using prefix_snoc[of q "butlast p" "last p"] assms by simp

lemma not_prefix_butlast:
  assumes "p \<noteq> []"
  shows "\<not> prefix p (butlast p)"
proof
  assume "prefix p (butlast p)"
  then have "length p \<le> length (butlast p)" by (rule Sublist.prefix_length_le)
  with assms show False by (cases p rule: rev_cases) auto
qed

lemma stat_mkdir_parents:
  "mkdir_parents ok t p = Inr t' \<Longrightarrow>
   stat t' q = (if prefix q p \<and> stat t q = None then Some IsDir else stat t q)"
proof (induction ok t p arbitrary: t' q rule: mkdir_parents.induct)
  case (1 ok t p)
  show ?case
  proof (cases "os_mkdir t p")
    case (Inr t1)
    then have t': "t' = t1" using 1(2) by (simp add: mkdir_parents.simps[of ok t p])
    from Inr have p: "p \<noteq> []" and par: "stat t (butlast p) = Some IsDir" and none: "stat t p = None"
      by (simp_all add: os_mkdir_Inr)
    have "stat t q \<noteq> None" if "prefix q (butlast p)" for q
    proof -
      from that obtain r where "butlast p = q @ r" by (auto simp: prefix_def)
      with par show ?thesis using stat_prefix_exists[of t q r] by simp
    qed
    then show ?thesis using stat_os_mkdir[OF Inr, of q] t' none prefix_butlast[OF p, of q]
      by auto
  next
    case (Inl e)
    show ?thesis
    proof (cases "e = FileNotFoundError")
      case True
      with Inl have p: "p \<noteq> []" using os_mkdir_ENOENT by blast
      from Inl True p 1(2) obtain t1 where
        t1: "mkdir_parents True t (butlast p) = Inr t1" and fl: "mkdir_flat ok t1 p = Inr t'"
        by (auto simp: mkdir_parents.simps[of ok t p] split: sum.splits)
      have ih: "\<And>q. stat t1 q = (if prefix q (butlast p) \<and> stat t q = None then Some IsDir else stat t q)"
        using 1(1)[OF Inl True p t1] .
      have np: "\<not> prefix p (butlast p)" using p by (rule not_prefix_butlast)
      show ?thesis using stat_mkdir_flat[OF fl, of q] ih[of q] ih[of p] np prefix_butlast[OF p, of q]
        by (auto split: if_splits)
    next
      case False
      with Inl 1(2) have "t' = t" and "is_dir t p"
        by (auto simp: mkdir_parents.simps[of ok t p] split: if_splits)
      then have "stat t p \<noteq> None" by (simp add: is_dir_stat)
      then have "stat t q \<noteq> None" if "prefix q p" for q
        using that stat_prefix_exists[of t q] by (auto simp: prefix_def)
      then show ?thesis using \<open>t' = t\<close> by auto
    qed
  qed
qed


lemma stat_IsFile: "stat t p = Some (IsFile c r w) \<longleftrightarrow> lookup t p = Some (File c r w)"
proof (cases "lookup t p")
  case None
  then show ?thesis by (simp add: stat_def)
next
  case (Some x)
  then show ?thesis by (cases x) (auto simp: stat_def)
qed

lemma stat_IsDir: "stat t p = Some IsDir \<longleftrightarrow> (\<exists>es. lookup t p = Some (Dir es))"
proof (cases "lookup t p")
  case None
  then show ?thesis by (simp add: stat_def)
next
  case (Some x)
  then show ?thesis by (cases x) (auto simp: stat_def)
qed

lemma sstat_IsFile: "sstat src p = Some (IsFile c r w) \<longleftrightarrow> slookup src p = Some (File c r w)"
proof (cases "slookup src p")
  case None
  then show ?thesis by (simp add: sstat_def)
next
  case (Some x)
  then show ?thesis by (cases x) (auto simp: sstat_def)
qed

lemma sstat_IsDir: "sstat src p = Some IsDir \<longleftrightarrow> (\<exists>es. slookup src p = Some (Dir es))"
proof (cases "slookup src p")
  case None
  then show ?thesis by (simp add: sstat_def)
next
  case (Some x)
  then show ?thesis by (cases x) (auto simp: sstat_def)
qed

text \<open>Copying a readable source file over an existing replica file.\<close>

lemma copy2_over_file:
  assumes "slookup src p = Some (File c r w)" and "lookup t dst = Some (File c' r' w')"
  shows "copy2 src p t dst =
           (if \<not> r \<or> \<not> w' then Inl PermissionError else Inr (store t dst (File c r w)))"
proof -
  have "\<not> is_dir t dst" using assms(2) by (simp add: is_dir_def)
  then have "copy_target t p dst = dst" by (simp add: copy_target_def)
  then show ?thesis using assms by (simp add: copy2_def open_write_def)
qed










lemma wf_lookup: "wf_node t \<Longrightarrow> lookup t d = Some c \<Longrightarrow> wf_node c"
proof (induction t d rule: lookup.induct)
  case (1 t)
  then show ?case by simp
next
  case (2 c r w n p)
  then show ?case by simp
next
  case (3 es n p)
  from 3(3) obtain x where x: "map_of es n = Some x" and l: "lookup x p = Some c"
    by (auto split: option.splits)
  from x have "(n, x) \<in> set es" by (rule map_of_SomeD)
  then have "wf_node x" using 3(2) by auto
  then show ?case using 3(1)[OF x _ l] by simp
qed

lemma fold_max_ge: "(m::nat) \<le> fold max xs m"
  by (induction xs arbitrary: m) (auto intro: order_trans[OF max.cobounded2])

lemma fold_max_mem: "(x::nat) \<in> set xs \<Longrightarrow> x \<le> fold max xs m"
proof (induction xs arbitrary: m)
  case Nil
  then show ?case by simp
next
  case (Cons a xs)
  show ?case
  proof (cases "x = a")
    case True
    have "max a m \<le> fold max xs (max a m)" by (rule fold_max_ge)
    then show ?thesis using True by simp
  next
    case False
    then show ?thesis using Cons by simp
  qed
qed

lemma height_child: "(n, c) \<in> set es \<Longrightarrow> height c < height (Dir es)"
proof -
  assume "(n, c) \<in> set es"
  then have "height c \<in> set (map (\<lambda>e. height (snd e)) es)" by force
  then have "height c \<le> fold max (map (\<lambda>e. height (snd e)) es) 0" by (rule fold_max_mem)
  then show ?thesis by simp
qed

lemma height_lookup: "lookup t q = Some (Dir es) \<Longrightarrow> length q < height t"
proof (induction t q rule: lookup.induct)
  case (1 t)
  then show ?case by simp
next
  case (2 c r w n p)
  then show ?case by simp
next
  case (3 es' n p)
  from 3(2) obtain x where x: "map_of es' n = Some x" and l: "lookup x p = Some (Dir es)"
    by (auto split: option.splits)
  from x have "(n, x) \<in> set es'" by (rule map_of_SomeD)
  then have "height x < height (Dir es')" by (rule height_child)
  then show ?case using 3(1)[OF x l] by simp
qed

lemma height_stat: "stat t q = Some IsDir \<Longrightarrow> length q < height t"
  using height_lookup by (auto simp: stat_IsDir)

lemma wf_update:
  "distinct (map fst es) \<Longrightarrow> \<forall>e \<in> set es. wf_node (snd e) \<Longrightarrow> wf_node x \<Longrightarrow>
   distinct (map fst (AList.update n x es)) \<and> (\<forall>e \<in> set (AList.update n x es). wf_node (snd e))"
proof (induction es)
  case Nil
  then show ?case by simp
next
  case (Cons a es)
  then show ?case by (cases a) (auto simp: distinct_update dom_update)
qed

lemma wf_delete:
  "distinct (map fst es) \<Longrightarrow> \<forall>e \<in> set es. wf_node (snd e) \<Longrightarrow>
   distinct (map fst (AList.delete n es)) \<and> (\<forall>e \<in> set (AList.delete n es). wf_node (snd e))"
proof -
  assume d: "distinct (map fst es)" and w: "\<forall>e \<in> set es. wf_node (snd e)"
  have "distinct (map fst (AList.delete n es))" using d by (rule distinct_delete)
  moreover have "set (AList.delete n es) \<subseteq> set es" by (auto simp: AList.delete_eq)
  ultimately show ?thesis using w by blast
qed

lemma wf_erase: "wf_node t \<Longrightarrow> wf_node (erase t p)"
proof (induction t p rule: erase.induct)
  case (1 t)
  then show ?case by simp
next
  case (2 c r w n p)
  then show ?case by simp
next
  case (3 es n p)
  show ?case
  proof (cases "p = []")
    case True
    then show ?thesis using 3(2) wf_delete[of es n] by simp
  next
    case False
    show ?thesis
    proof (cases "map_of es n")
      case None
      then show ?thesis using False 3(2) by simp
    next
      case (Some c)
      then have "(n, c) \<in> set es" by (rule map_of_SomeD)
      then have "wf_node c" using 3(2) by auto
      then have "wf_node (erase c p)" using 3(1)[OF False Some] by simp
      then show ?thesis using False Some 3(2) wf_update[of es "erase c p" n] by simp
    qed
  qed
qed

lemma wf_store: "wf_node t \<Longrightarrow> wf_node x \<Longrightarrow> wf_node (store t p x)"
proof (induction t p x rule: store.induct)
  case (1 t x)
  then show ?case by simp
next
  case (2 c r w n p x)
  then show ?case by simp
next
  case (3 es n p x)
  show ?case
  proof (cases "p = []")
    case True
    then show ?thesis using 3(2,3) wf_update[of es x n] by simp
  next
    case False
    show ?thesis
    proof (cases "map_of es n")
      case None
      then show ?thesis using False 3(2) by simp
    next
      case (Some c)
      then have "(n, c) \<in> set es" by (rule map_of_SomeD)
      then have "wf_node c" using 3(2) by auto
      then have "wf_node (store c p x)" using 3(1)[OF False Some] 3(3) by simp
      then show ?thesis using False Some 3(2) wf_update[of es "store c p x" n] by simp
    qed
  qed
qed


subsection \<open>Directory listings\<close>

lemma stat_child:
  "lookup t d = Some (Dir es0) \<Longrightarrow> stat t (d @ [n]) = map_option kind (map_of es0 n)"
  by (simp add: stat_append stat_Dir_Cons split: option.splits)

lemma scandir_Inr:
  "scandir obj = Inr es \<longleftrightarrow>
     (\<exists>es0. obj = Some (Dir es0) \<and> es = map (\<lambda>(n, c). (n, kind c = IsDir)) es0)"
proof (cases obj)
  case None
  then show ?thesis by (simp add: scandir_def)
next
  case (Some x)
  then show ?thesis by (cases x) (auto simp: scandir_def)
qed

lemma listing_names: "map fst (map (\<lambda>(n, c). (n, kind c = IsDir)) es0) = map fst es0"
  by (induction es0) auto

lemma listing_member:
  "lookup t d = Some (Dir es0) \<Longrightarrow> n \<in> set (map fst es0) \<longleftrightarrow> stat t (d @ [n]) \<noteq> None"
  by (simp add: stat_child map_of_eq_None_iff)

lemma listing_dir_in:
  assumes "lookup t d = Some (Dir es0)" and "stat t (d @ [n]) = Some IsDir"
  shows "n \<in> set (map fst (filter snd (map (\<lambda>(n, c). (n, kind c = IsDir)) es0)))"
proof -
  from assms obtain c where c: "map_of es0 n = Some c" and k: "kind c = IsDir"
    by (auto simp: stat_child)
  from c have "(n, c) \<in> set es0" by (rule map_of_SomeD)
  then have "(n, True) \<in> set (map (\<lambda>(n, c). (n, kind c = IsDir)) es0)" using k by force
  then show ?thesis by force
qed

lemma listing_dir_out:
  assumes "lookup t d = Some (Dir es0)" and "distinct (map fst es0)"
    and "n \<in> set (map fst (filter snd (map (\<lambda>(n, c). (n, kind c = IsDir)) es0)))"
  shows "stat t (d @ [n]) = Some IsDir"
proof -
  from assms(3) obtain c where c: "(n, c) \<in> set es0" and k: "kind c = IsDir" by auto
  from assms(2) c have "map_of es0 n = Some c" by (rule map_of_is_SomeI)
  then show ?thesis using assms(1) k by (simp add: stat_child)
qed

lemma listing_dirs_distinct:
  "distinct (map fst es0) \<Longrightarrow>
   distinct (map fst (filter snd (map (\<lambda>(n, c). (n, kind c = IsDir)) es0)))"
proof (induction es0)
  case Nil
  then show ?case by simp
next
  case (Cons a es0)
  then show ?case by (cases a) force
qed

lemma wf_listing: "wf_node t \<Longrightarrow> lookup t d = Some (Dir es0) \<Longrightarrow> distinct (map fst es0)"
  using wf_lookup[of t d "Dir es0"] by simp

subsection \<open>The body of the second loop\<close>

lemma rmtree_dir:
  "stat t p = Some IsDir \<Longrightarrow> p \<noteq> [] \<Longrightarrow> rmtree t p = Inr (erase t p)"
  by (auto simp: rmtree_def stat_IsDir)

lemma unlink_file:
  "stat t p = Some (IsFile c r w) \<Longrightarrow> p \<noteq> [] \<Longrightarrow> unlink t p = Inr (erase t p)"
  by (simp add: unlink_def stat_IsFile)

lemma prune_item_kept: "sstat src p \<noteq> None \<Longrightarrow> prune_item src rpath p s = Inr s"
  by (simp add: prune_item_def sexists_sstat)

lemma prune_item_removed:
  assumes "sstat src p = None" and "p \<noteq> []" and "stat (fst s) (rpath @ p) = Some e"
  shows "prune_item src rpath p s =
           Inr (erase (fst s) (rpath @ p),
                snd s @ [if e = IsDir then DeletedDir p else DeletedFile p])"
proof (cases e)
  case (IsFile c r w)
  then have "\<not> is_dir (fst s) (rpath @ p)" using assms(3) by (simp add: is_dir_stat)
  moreover have "unlink (fst s) (rpath @ p) = Inr (erase (fst s) (rpath @ p))"
    using assms(2,3) IsFile unlink_file[of "fst s" "rpath @ p" c r w] by simp
  ultimately show ?thesis using assms(1) IsFile by (simp add: prune_item_def sexists_sstat)
next
  case IsDir
  then have "is_dir (fst s) (rpath @ p)" using assms(3) by (simp add: is_dir_stat)
  moreover have "rmtree (fst s) (rpath @ p) = Inr (erase (fst s) (rpath @ p))"
    using assms(2,3) IsDir rmtree_dir[of "fst s" "rpath @ p"] by simp
  ultimately show ?thesis using assms(1) IsDir by (simp add: prune_item_def sexists_sstat)
qed


lemma pruned_event_mono:
  assumes "pruned_event src rpath t1 ev" and "\<And>q y. stat t1 q = Some y \<Longrightarrow> stat t q = Some y"
  shows "pruned_event src rpath t ev"
proof (cases ev)
  case (DeletedDir p)
  then show ?thesis using assms(1) assms(2)[of "rpath @ p" IsDir]
    by (simp add: pruned_event_def)
next
  case (DeletedFile p)
  then obtain c r w where "stat t1 (rpath @ p) = Some (IsFile c r w)"
    using assms(1) by (auto simp: pruned_event_def)
  then have "stat t (rpath @ p) = Some (IsFile c r w)" by (rule assms(2))
  then show ?thesis using DeletedFile assms(1) by (simp add: pruned_event_def)
qed (use assms(1) in \<open>simp_all add: pruned_event_def\<close>)

lemma pruned_event_child:
  assumes "sstat src (d @ [n]) = None" and "stat t (rpath @ d @ [n]) = Some e"
    and "d = [] \<or> sstat src d \<noteq> None"
  shows "pruned_event src rpath t (if e = IsDir then DeletedDir (d @ [n]) else DeletedFile (d @ [n]))"
proof (cases e)
  case (IsFile c r w)
  then show ?thesis using assms by (simp add: pruned_event_def)
next
  case IsDir
  then show ?thesis using assms by (simp add: pruned_event_def)
qed

lemma sibling_not_prefix: "m \<noteq> n \<Longrightarrow> \<not> prefix (rpath @ d @ [n]) (rpath @ d @ [m] @ r)"
  by simp

lemma prune_children:
  assumes "distinct ns" and "\<forall>n\<in>set ns. stat (fst s) (rpath @ d @ [n]) \<noteq> None"
    and "d = [] \<or> sstat src d \<noteq> None"
  shows "\<exists>s'. for_each (\<lambda>n. prune_item src rpath (d @ [n])) ns s = Inr s'
           \<and> (\<forall>q. stat (fst s') q =
                  (if \<exists>n\<in>set ns. sstat src (d @ [n]) = None \<and> prefix (rpath @ d @ [n]) q
                   then None else stat (fst s) q))
           \<and> (wf_node (fst s) \<longrightarrow> wf_node (fst s'))
           \<and> (\<exists>new. snd s' = snd s @ new \<and> (\<forall>ev\<in>set new. pruned_event src rpath (fst s) ev))"
  using assms(1,2)
proof (induction ns arbitrary: s)
  case Nil
  then show ?case by simp
next
  case (Cons n ns)
  from Cons(3) obtain e where e: "stat (fst s) (rpath @ d @ [n]) = Some e" by auto
  from Cons(2) have dn: "distinct ns" and nn: "n \<notin> set ns" by simp_all
  show ?case
  proof (cases "sstat src (d @ [n])")
    case (Some y)
    then have step: "prune_item src rpath (d @ [n]) s = Inr s" by (simp add: prune_item_kept)
    from Cons(3) have "\<forall>m\<in>set ns. stat (fst s) (rpath @ d @ [m]) \<noteq> None" by simp
    from Cons(1)[OF dn this] obtain s' where
      f: "for_each (\<lambda>n. prune_item src rpath (d @ [n])) ns s = Inr s'" and
      st: "\<And>q. stat (fst s') q =
                  (if \<exists>m\<in>set ns. sstat src (d @ [m]) = None \<and> prefix (rpath @ d @ [m]) q
                   then None else stat (fst s) q)" and
      wf: "wf_node (fst s) \<longrightarrow> wf_node (fst s')" and
      lg: "\<exists>new. snd s' = snd s @ new \<and> (\<forall>ev\<in>set new. pruned_event src rpath (fst s) ev)"
      by blast
    have "for_each (\<lambda>n. prune_item src rpath (d @ [n])) (n # ns) s = Inr s'"
      using step f by simp
    moreover have "stat (fst s') q =
                  (if \<exists>m\<in>set (n # ns). sstat src (d @ [m]) = None \<and> prefix (rpath @ d @ [m]) q
                   then None else stat (fst s) q)" for q
      using st[of q] Some by simp
    ultimately show ?thesis using wf lg by blast
  next
    case None
    let ?s1 = "(erase (fst s) (rpath @ d @ [n]),
                snd s @ [if e = IsDir then DeletedDir (d @ [n]) else DeletedFile (d @ [n])])"
    have step: "prune_item src rpath (d @ [n]) s = Inr ?s1"
      using prune_item_removed[OF None _ , of s rpath e] e by simp
    have s1: "stat (fst ?s1) q = (if prefix (rpath @ d @ [n]) q then None else stat (fst s) q)" for q
      using stat_erase[of "rpath @ d @ [n]" "fst s" q] by simp
    have "\<forall>m\<in>set ns. stat (fst ?s1) (rpath @ d @ [m]) \<noteq> None"
    proof
      fix m assume m: "m \<in> set ns"
      then have "m \<noteq> n" using nn by auto
      then have "\<not> prefix (rpath @ d @ [n]) (rpath @ d @ [m])" by simp
      then show "stat (fst ?s1) (rpath @ d @ [m]) \<noteq> None" using s1[of "rpath @ d @ [m]"] Cons(3) m
        by simp
    qed
    from Cons(1)[OF dn this] obtain s' where
      f: "for_each (\<lambda>n. prune_item src rpath (d @ [n])) ns ?s1 = Inr s'" and
      st: "\<And>q. stat (fst s') q =
                  (if \<exists>m\<in>set ns. sstat src (d @ [m]) = None \<and> prefix (rpath @ d @ [m]) q
                   then None else stat (fst ?s1) q)" and
      wf: "wf_node (fst ?s1) \<longrightarrow> wf_node (fst s')" and
      lg: "\<exists>new. snd s' = snd ?s1 @ new \<and> (\<forall>ev\<in>set new. pruned_event src rpath (fst ?s1) ev)"
      by blast
    have a: "for_each (\<lambda>n. prune_item src rpath (d @ [n])) (n # ns) s = Inr s'"
      using step f by simp
    have b: "stat (fst s') q =
                  (if \<exists>m\<in>set (n # ns). sstat src (d @ [m]) = None \<and> prefix (rpath @ d @ [m]) q
                   then None else stat (fst s) q)" for q
      using st[of q] s1[of q] None by auto
    have c: "wf_node (fst s) \<longrightarrow> wf_node (fst s')" using wf wf_erase[of "fst s" "rpath @ d @ [n]"] by simp
    from lg obtain new where
      n1: "snd s' = snd ?s1 @ new" and n2: "\<forall>ev\<in>set new. pruned_event src rpath (fst ?s1) ev"
      by blast
    have mono: "stat (fst s) q = Some y" if "stat (fst ?s1) q = Some y" for q y
      using that s1[of q] by (simp split: if_splits)
    have "\<forall>ev\<in>set new. pruned_event src rpath (fst s) ev"
      using n2 pruned_event_mono[OF _ mono] by blast
    moreover have "pruned_event src rpath (fst s)
                     (if e = IsDir then DeletedDir (d @ [n]) else DeletedFile (d @ [n]))"
      using pruned_event_child[OF None _ assms(3), of "fst s" rpath e] e by simp
    ultimately have d: "\<exists>new'. snd s' = snd s @ new' \<and> (\<forall>ev\<in>set new'. pruned_event src rpath (fst s) ev)"
      using n1 by (intro exI[of _ "(if e = IsDir then DeletedDir (d @ [n]) else DeletedFile (d @ [n])) # new"]) simp
    show ?thesis using a b c d by blast
  qed
qed


lemma sstat_None_append: "sstat src p = None \<Longrightarrow> sstat src (p @ q) = None"
proof (cases src)
  case None
  then show ?thesis by (simp add: sstat_def slookup_def)
next
  case (Some t)
  assume "sstat src p = None"
  then have "stat t p = None" using Some by (simp add: sstat_def slookup_def stat_def)
  then have "stat t (p @ q) = None" by (rule stat_None_append)
  then show ?thesis using Some by (simp add: sstat_def slookup_def stat_def)
qed

lemma prune_post_trans:
  assumes "prune_post src rpath g1 s s1" and "prune_post src rpath g2 s1 s2"
  shows "prune_post src rpath (\<lambda>q. g1 q \<or> g2 q) s s2"
proof -
  from assms(1) have st1: "\<And>q. stat (fst s1) q = (if g1 q then None else stat (fst s) q)"
    and l1: "\<exists>new. snd s1 = snd s @ new \<and> (\<forall>ev\<in>set new. pruned_event src rpath (fst s) ev)"
    by (simp_all add: prune_post_def)
  from assms(2) have st2: "\<And>q. stat (fst s2) q = (if g2 q then None else stat (fst s1) q)"
    and wf2: "wf_node (fst s2)"
    and l2: "\<exists>new. snd s2 = snd s1 @ new \<and> (\<forall>ev\<in>set new. pruned_event src rpath (fst s1) ev)"
    by (simp_all add: prune_post_def)
  from l1 obtain n1 where n1: "snd s1 = snd s @ n1" "\<forall>ev\<in>set n1. pruned_event src rpath (fst s) ev"
    by blast
  from l2 obtain n2 where n2: "snd s2 = snd s1 @ n2" "\<forall>ev\<in>set n2. pruned_event src rpath (fst s1) ev"
    by blast
  have mono: "stat (fst s) q = Some y" if "stat (fst s1) q = Some y" for q y
    using that st1[of q] by (simp split: if_splits)
  have "\<forall>ev\<in>set n2. pruned_event src rpath (fst s) ev"
    using n2(2) pruned_event_mono[OF _ mono] by blast
  then have "snd s2 = snd s @ (n1 @ n2) \<and> (\<forall>ev\<in>set (n1 @ n2). pruned_event src rpath (fst s) ev)"
    using n1 n2(1) by auto
  then have lg: "\<exists>new. snd s2 = snd s @ new \<and> (\<forall>ev\<in>set new. pruned_event src rpath (fst s) ev)"
    by blast
  have "stat (fst s2) q = (if g1 q \<or> g2 q then None else stat (fst s) q)" for q
    using st1[of q] st2[of q] by simp
  then show ?thesis using wf2 lg by (simp add: prune_post_def)
qed

lemma prune_post_cong:
  assumes "prune_post src rpath g s s'"
    and "\<And>q. stat (fst s) q \<noteq> None \<Longrightarrow> g q = g' q"
  shows "prune_post src rpath g' s s'"
proof -
  have "(if g q then None else stat (fst s) q) = (if g' q then None else stat (fst s) q)" for q
    using assms(2)[of q] by (cases "stat (fst s) q") auto
  then show ?thesis using assms(1) by (simp add: prune_post_def)
qed

lemma prune_post_refl: "wf_node (fst s) \<Longrightarrow> prune_post src rpath (\<lambda>q. False) s s"
  by (simp add: prune_post_def)

text \<open>Descending into the subdirectories \<open>ns\<close> of \<open>d\<close>, given what a walk with the same fuel
  does in each of them.\<close>

lemma prune_dirs:
  assumes loop: "\<And>d s. wf_node (fst s) \<Longrightarrow> stat (fst s) (rpath @ d) = Some IsDir
            \<Longrightarrow> d = [] \<or> sstat src d \<noteq> None
            \<Longrightarrow> \<forall>r. stat (fst s) (rpath @ d @ r) = Some IsDir \<longrightarrow> length r < k
            \<Longrightarrow> \<exists>s'. rglob_loop k (list_replica rpath) (prune_item src rpath) d s = Some (Inr s')
                     \<and> prune_post src rpath (stale src rpath d) s s'"
  shows "wf_node (fst s) \<Longrightarrow> distinct ns
     \<Longrightarrow> \<forall>n\<in>set ns. stat (fst s) (rpath @ d @ [n]) = Some IsDir \<and> sstat src (d @ [n]) \<noteq> None
     \<Longrightarrow> \<forall>n\<in>set ns. \<forall>r. stat (fst s) (rpath @ d @ [n] @ r) = Some IsDir \<longrightarrow> length r < k
     \<Longrightarrow> \<exists>s'. rglob_dirs k (list_replica rpath) (prune_item src rpath) d ns s = Some (Inr s')
              \<and> prune_post src rpath (\<lambda>q. \<exists>n\<in>set ns. stale src rpath (d @ [n]) q) s s'"
proof (induction ns arbitrary: s)
  case Nil
  then show ?case using prune_post_refl[of s src rpath] by simp
next
  case (Cons n ns)
  have "\<exists>s1. rglob_loop k (list_replica rpath) (prune_item src rpath) (d @ [n]) s = Some (Inr s1)
             \<and> prune_post src rpath (stale src rpath (d @ [n])) s s1"
    using loop[of s "d @ [n]"] Cons(2,4,5) by simp
  then obtain s1 where
    r1: "rglob_loop k (list_replica rpath) (prune_item src rpath) (d @ [n]) s = Some (Inr s1)" and
    p1: "prune_post src rpath (stale src rpath (d @ [n])) s s1"
    by blast
  from p1 have st1: "\<And>q. stat (fst s1) q = (if stale src rpath (d @ [n]) q then None else stat (fst s) q)"
    and wf1: "wf_node (fst s1)"
    by (simp_all add: prune_post_def)
  have same: "stat (fst s1) (rpath @ d @ [m]) = stat (fst s) (rpath @ d @ [m])" if "m \<noteq> n" for m
    using st1[of "rpath @ d @ [m]"] that by (auto simp: stale_def)
  have mono: "stat (fst s) q = Some y" if "stat (fst s1) q = Some y" for q y
    using that st1[of q] by (simp split: if_splits)
  from Cons(3) have dn: "distinct ns" and nn: "n \<notin> set ns" by simp_all
  have a: "\<forall>m\<in>set ns. stat (fst s1) (rpath @ d @ [m]) = Some IsDir \<and> sstat src (d @ [m]) \<noteq> None"
  proof
    fix m assume m: "m \<in> set ns"
    then have "m \<noteq> n" using nn by auto
    then show "stat (fst s1) (rpath @ d @ [m]) = Some IsDir \<and> sstat src (d @ [m]) \<noteq> None"
      using same[of m] Cons(4) m by simp
  qed
  have b: "\<forall>m\<in>set ns. \<forall>r. stat (fst s1) (rpath @ d @ [m] @ r) = Some IsDir \<longrightarrow> length r < k"
    using Cons(5) mono by auto
  from Cons(1)[OF wf1 dn a b] obtain s' where
    r2: "rglob_dirs k (list_replica rpath) (prune_item src rpath) d ns s1 = Some (Inr s')" and
    p2: "prune_post src rpath (\<lambda>q. \<exists>m\<in>set ns. stale src rpath (d @ [m]) q) s1 s'"
    by blast
  have "rglob_dirs k (list_replica rpath) (prune_item src rpath) d (n # ns) s = Some (Inr s')"
    using r1 r2 by simp
  moreover have "prune_post src rpath (\<lambda>q. \<exists>m\<in>set (n # ns). stale src rpath (d @ [m]) q) s s'"
    using prune_post_trans[OF p1 p2] by (rule prune_post_cong) auto
  ultimately show ?case by blast
qed


lemma stale_child:
  assumes "sstat src (d @ [n]) = None" and "prefix (rpath @ d @ [n]) q"
  shows "stale src rpath d q"
proof -
  from assms(2) obtain r where q: "q = (rpath @ d @ [n]) @ r" by (auto simp: prefix_def)
  have "sstat src ((d @ [n]) @ r) = None" using assms(1) by (rule sstat_None_append)
  then show ?thesis using q by (auto simp: stale_def intro: exI[of _ "n # r"])
qed

lemma stale_deeper: "stale src rpath (d @ [n]) q \<Longrightarrow> stale src rpath d q"
proof -
  assume "stale src rpath (d @ [n]) q"
  then obtain r where "r \<noteq> []" "q = rpath @ (d @ [n]) @ r" "sstat src ((d @ [n]) @ r) = None"
    by (auto simp: stale_def)
  then show ?thesis by (auto simp: stale_def intro: exI[of _ "n # r"])
qed

lemma prune_visit:
  "wf_node (fst s) \<Longrightarrow> stat (fst s) (rpath @ d) = Some IsDir
    \<Longrightarrow> d = [] \<or> sstat src d \<noteq> None
    \<Longrightarrow> \<forall>r. stat (fst s) (rpath @ d @ r) = Some IsDir \<longrightarrow> length r < k
    \<Longrightarrow> \<exists>s'. rglob_loop k (list_replica rpath) (prune_item src rpath) d s = Some (Inr s')
             \<and> prune_post src rpath (stale src rpath d) s s'"
proof (induction k arbitrary: d s)
  case 0
  from 0(2,4) have "length ([]::path) < 0" by (metis append_Nil2)
  then show ?case by simp
next
  case (Suc k)
  from Suc(3) obtain es0 where es0: "lookup (fst s) (rpath @ d) = Some (Dir es0)"
    by (auto simp: stat_IsDir)
  let ?es = "map (\<lambda>(n, c). (n, kind c = IsDir)) es0"
  have ls: "list_replica rpath s d = Inr ?es" using es0 by (simp add: list_replica_def scandir_def)
  have names: "map fst ?es = map fst es0" by (rule listing_names)
  have dist: "distinct (map fst es0)" using Suc(2) es0 by (rule wf_listing)
  have ex: "\<forall>n\<in>set (map fst es0). stat (fst s) (rpath @ d @ [n]) \<noteq> None"
    using listing_member[OF es0] by simp
  from prune_children[OF dist ex Suc(4)] obtain s1 where
    f1: "for_each (\<lambda>n. prune_item src rpath (d @ [n])) (map fst es0) s = Inr s1" and
    st1: "\<And>q. stat (fst s1) q =
                  (if \<exists>n\<in>set (map fst es0). sstat src (d @ [n]) = None \<and> prefix (rpath @ d @ [n]) q
                   then None else stat (fst s) q)" and
    wf1': "wf_node (fst s) \<longrightarrow> wf_node (fst s1)" and
    lg1: "\<exists>new. snd s1 = snd s @ new \<and> (\<forall>ev\<in>set new. pruned_event src rpath (fst s) ev)"
    by blast
  have wf1: "wf_node (fst s1)" using wf1' Suc(2) by simp
  let ?c = "\<lambda>q. \<exists>n\<in>set (map fst es0). sstat src (d @ [n]) = None \<and> prefix (rpath @ d @ [n]) q"
  have p1: "prune_post src rpath ?c s s1"
    using st1 wf1 lg1 by (simp add: prune_post_def)
  have mono: "stat (fst s) q = Some y" if "stat (fst s1) q = Some y" for q y
    using that st1[of q] by (simp split: if_splits)
  have "stat (fst s1) (rpath @ d) = Some IsDir" using st1[of "rpath @ d"] Suc(3) by simp
  then obtain es1 where es1: "lookup (fst s1) (rpath @ d) = Some (Dir es1)"
    by (auto simp: stat_IsDir)
  let ?es1 = "map (\<lambda>(n, c). (n, kind c = IsDir)) es1"
  let ?ds = "map fst (filter snd ?es1)"
  have ls1: "list_replica rpath s1 d = Inr ?es1" using es1 by (simp add: list_replica_def scandir_def)
  have dist1: "distinct (map fst es1)" using wf1 es1 by (rule wf_listing)
  have dds: "distinct ?ds" using dist1 by (rule listing_dirs_distinct)
  have isdir: "stat (fst s1) (rpath @ d @ [m]) = Some IsDir" if "m \<in> set ?ds" for m
    using listing_dir_out[OF es1 dist1 that] by simp
  have a: "\<forall>m\<in>set ?ds. stat (fst s1) (rpath @ d @ [m]) = Some IsDir \<and> sstat src (d @ [m]) \<noteq> None"
  proof
    fix m assume m: "m \<in> set ?ds"
    have i: "stat (fst s1) (rpath @ d @ [m]) = Some IsDir" using m by (rule isdir)
    then have "stat (fst s) (rpath @ d @ [m]) = Some IsDir" by (rule mono)
    then have "m \<in> set (map fst es0)" using listing_member[OF es0, of m] by simp
    then have c: "sstat src (d @ [m]) = None \<Longrightarrow> ?c (rpath @ d @ [m])"
      by (intro bexI[of _ m]) simp_all
    have "sstat src (d @ [m]) \<noteq> None"
    proof
      assume "sstat src (d @ [m]) = None"
      then have "?c (rpath @ d @ [m])" by (rule c)
      then have "stat (fst s1) (rpath @ d @ [m]) = None" by (simp only: st1 if_True)
      with i show False by simp
    qed
    then show "stat (fst s1) (rpath @ d @ [m]) = Some IsDir \<and> sstat src (d @ [m]) \<noteq> None"
      using i by simp
  qed
  have b: "\<forall>m\<in>set ?ds. \<forall>r. stat (fst s1) (rpath @ d @ [m] @ r) = Some IsDir \<longrightarrow> length r < k"
  proof (intro ballI allI impI)
    fix m r assume "stat (fst s1) (rpath @ d @ [m] @ r) = Some IsDir"
    then have "stat (fst s) (rpath @ d @ [m] @ r) = Some IsDir" by (rule mono)
    then have "length ([m] @ r) < Suc k" using Suc(5) by blast
    then show "length r < k" by simp
  qed
  from prune_dirs[of rpath src k, OF Suc(1) wf1 dds a b] obtain s' where
    r2: "rglob_dirs k (list_replica rpath) (prune_item src rpath) d ?ds s1 = Some (Inr s')" and
    p2: "prune_post src rpath (\<lambda>q. \<exists>m\<in>set ?ds. stale src rpath (d @ [m]) q) s1 s'"
    by blast
  have run: "rglob_loop (Suc k) (list_replica rpath) (prune_item src rpath) d s = Some (Inr s')"
    by (simp only: rglob_loop.simps ls sum.case names f1 ls1 r2)
  have eq: "(?c q \<or> (\<exists>m\<in>set ?ds. stale src rpath (d @ [m]) q)) = stale src rpath d q"
    if q: "stat (fst s) q \<noteq> None" for q
  proof
    assume "?c q \<or> (\<exists>m\<in>set ?ds. stale src rpath (d @ [m]) q)"
    then show "stale src rpath d q" using stale_child stale_deeper by blast
  next
    assume "stale src rpath d q"
    then obtain r where r: "r \<noteq> []" and qq: "q = rpath @ d @ r" and sr: "sstat src (d @ r) = None"
      by (auto simp: stale_def)
    from r obtain n r' where nr: "r = n # r'" by (cases r) auto
    have qn: "q = (rpath @ d @ [n]) @ r'" using qq nr by simp
    then have en: "stat (fst s) (rpath @ d @ [n]) \<noteq> None" using q stat_prefix_exists by blast
    then have nin: "n \<in> set (map fst es0)" using listing_member[OF es0, of n] by simp
    show "?c q \<or> (\<exists>m\<in>set ?ds. stale src rpath (d @ [m]) q)"
    proof (cases "sstat src (d @ [n])")
      case None
      then have "?c q" using nin qn by auto
      then show ?thesis by simp
    next
      case (Some y)
      then have r': "r' \<noteq> []" using sr nr by auto
      then have "stat (fst s) (rpath @ d @ [n]) = Some IsDir"
        using stat_below_dir[of "fst s" "rpath @ d @ [n]" r'] q qn by simp
      then have "stat (fst s1) (rpath @ d @ [n]) = Some IsDir"
        using st1[of "rpath @ d @ [n]"] Some by auto
      then have "n \<in> set ?ds" using listing_dir_in[OF es1, of n] by simp
      moreover have "stale src rpath (d @ [n]) q"
        using r' qq nr sr by (auto simp: stale_def)
      ultimately show ?thesis by blast
    qed
  qed
  have "prune_post src rpath (stale src rpath d) s s'"
    using prune_post_trans[OF p1 p2] eq by (rule prune_post_cong)
  then show ?case using run by blast
qed


subsection \<open>More fuel changes nothing\<close>

lemma rglob_dirs_fuel_add:
  assumes "\<And>d s r. rglob_loop k ls body d s = Some r \<Longrightarrow> rglob_loop (k + j) ls body d s = Some r"
  shows "rglob_dirs k ls body d ns s = Some r \<Longrightarrow> rglob_dirs (k + j) ls body d ns s = Some r"
proof (induction ns arbitrary: s)
  case Nil
  then show ?case by simp
next
  case (Cons n ns)
  show ?case
  proof (cases "rglob_loop k ls body (d @ [n]) s")
    case None
    then show ?thesis using Cons(2) by simp
  next
    case (Some x)
    then have x: "rglob_loop (k + j) ls body (d @ [n]) s = Some x" by (rule assms)
    show ?thesis
    proof (cases x)
      case (Inl e)
      have "r = Inl e" using Cons(2) Some Inl by simp
      then show ?thesis using x Inl by simp
    next
      case (Inr s')
      then have "rglob_dirs k ls body d ns s' = Some r" using Cons(2) Some by simp
      then have "rglob_dirs (k + j) ls body d ns s' = Some r" by (rule Cons(1))
      then show ?thesis using Some x Inr by simp
    qed
  qed
qed

lemma rglob_loop_fuel_add:
  "rglob_loop k ls body d s = Some r \<Longrightarrow> rglob_loop (k + j) ls body d s = Some r"
proof (induction k arbitrary: d s r)
  case 0
  then show ?case by simp
next
  case (Suc k)
  show ?case
  proof (cases "ls s d")
    case (Inl e)
    have "r = Inl (e, s)" using Suc(2) Inl by simp
    then show ?thesis using Inl by simp
  next
    case (Inr es)
    show ?thesis
    proof (cases "for_each (\<lambda>n. body (d @ [n])) (map fst es) s")
      case (Inl e)
      have "r = Inl e" using Suc(2) Inr Inl by simp
      then show ?thesis using Inr Inl by simp
    next
      case s1: (Inr s1)
      show ?thesis
      proof (cases "ls s1 d")
        case (Inl e)
        have "r = Inl (e, s1)" using Suc(2) Inr s1 Inl by simp
        then show ?thesis using Inr s1 Inl by simp
      next
        case es1: (Inr es1)
        then have "rglob_dirs k ls body d (map fst (filter snd es1)) s1 = Some r"
          using Suc(2) Inr s1 by simp
        then have "rglob_dirs (k + j) ls body d (map fst (filter snd es1)) s1 = Some r"
          using rglob_dirs_fuel_add[of k ls body j] Suc(1) by blast
        then show ?thesis using Inr s1 es1 by simp
      qed
    qed
  qed
qed

lemma rglob_loop_fuel:
  "rglob_loop k ls body d s = Some r \<Longrightarrow> k \<le> k' \<Longrightarrow> rglob_loop k' ls body d s = Some r"
  using rglob_loop_fuel_add[of k ls body d s r "k' - k"] by simp

subsection \<open>The second loop as a whole\<close>

lemma prune_total:
  assumes "wf_node (fst s)" and "height (fst s) \<le> fuel"
  shows "\<exists>s'. prune fuel src rpath s = Some (Inr s') \<and> prune_post src rpath (stale src rpath []) s s'"
proof (cases "is_dir (fst s) rpath")
  case True
  then have d: "stat (fst s) (rpath @ []) = Some IsDir" by (simp add: is_dir_stat)
  have b: "\<forall>r. stat (fst s) (rpath @ [] @ r) = Some IsDir \<longrightarrow> length r < fuel"
  proof (intro allI impI)
    fix r assume "stat (fst s) (rpath @ [] @ r) = Some IsDir"
    then have "length (rpath @ r) < height (fst s)" using height_stat[of "fst s" "rpath @ r"] by simp
    then show "length r < fuel" using assms(2) by simp
  qed
  from prune_visit[OF assms(1) d _ b, of src] show ?thesis using True by (simp add: prune_def)
next
  case False
  have "stat (fst s) q = None" if "stale src rpath [] q" for q
  proof (rule ccontr)
    assume n: "stat (fst s) q \<noteq> None"
    from that obtain r where "r \<noteq> []" "q = rpath @ r" by (auto simp: stale_def)
    then have "stat (fst s) rpath = Some IsDir" using stat_below_dir[of "fst s" rpath r] n by simp
    then show False using False by (simp add: is_dir_stat)
  qed
  then have "prune_post src rpath (stale src rpath []) s s"
    using assms(1) by (auto simp: prune_post_def)
  then show ?thesis using False by (simp add: prune_def)
qed

lemma prune_fuel:
  assumes "prune k src rpath s = Some r" and "k \<le> k'"
  shows "prune k' src rpath s = Some r"
  using assms rglob_loop_fuel[of k "list_replica rpath" "prune_item src rpath" "[]" s r k']
  by (auto simp: prune_def split: if_splits)

lemma prune_returns:
  assumes "wf_node (fst s)" and "prune k src rpath s = Some r"
  shows "\<exists>s'. r = Inr s' \<and> prune_post src rpath (stale src rpath []) s s'"
proof -
  let ?K = "max k (height (fst s))"
  from prune_total[OF assms(1), of ?K src rpath] obtain s' where
    t: "prune ?K src rpath s = Some (Inr s')" and p: "prune_post src rpath (stale src rpath []) s s'"
    by auto
  have "prune ?K src rpath s = Some r" using assms(2) by (rule prune_fuel) simp
  then have "r = Inr s'" using t by simp
  then show ?thesis using p by blast
qed


subsection \<open>The body of the first loop\<close>

lemma butlast_rpath: "p \<noteq> [] \<Longrightarrow> butlast (rpath @ p) = rpath @ butlast p"
  by (simp add: butlast_append)

lemma copy2_effect:
  assumes "copy2 src p t dst = Inr t'" and "dst \<noteq> []"
  shows "\<exists>c w. sstat src p = Some (IsFile c True w)
           \<and> (\<forall>x. stat t' x = (if x = copy_target t p dst then Some (IsFile c True w) else stat t x))
           \<and> (wf_node t \<longrightarrow> wf_node t')"
proof -
  let ?tgt = "copy_target t p dst"
  have tn: "?tgt \<noteq> []" using assms(2) by (simp add: copy_target_def)
  from assms(1) obtain c r w where s: "slookup src p = Some (File c r w)"
    by (auto simp: copy2_def split: option.splits node.splits)
  from assms(1) s have r: "r" and ow: "open_write t ?tgt = None" and t': "t' = store t ?tgt (File c r w)"
    by (auto simp: copy2_def split: if_splits option.splits)
  have par: "walk t (butlast ?tgt) = None" and below: "\<And>x. prefix ?tgt x \<Longrightarrow> x \<noteq> ?tgt \<Longrightarrow> stat t x = None"
  proof -
    show "walk t (butlast ?tgt) = None"
    proof (cases "lookup t ?tgt")
      case None
      then show ?thesis using ow by (simp add: open_write_def)
    next
      case (Some y)
      then have "stat t (butlast ?tgt @ [last ?tgt]) \<noteq> None" using tn by (simp add: stat_def)
      then have "stat t (butlast ?tgt) = Some IsDir" using stat_below_dir by blast
      then show ?thesis by (simp add: walk_None_iff)
    qed
    fix x assume px: "prefix ?tgt x" and ne: "x \<noteq> ?tgt"
    show "stat t x = None"
    proof (cases "lookup t ?tgt")
      case None
      then have "stat t ?tgt = None" by (simp add: stat_def)
      then show ?thesis using px by (rule stat_beyond_None)
    next
      case (Some y)
      then obtain c' r' w' where "y = File c' r' w'" using ow
        by (cases y) (auto simp: open_write_def)
      then have "stat t ?tgt = Some (IsFile c' r' w')" using Some by (simp add: stat_def)
      then show ?thesis using px ne by (rule stat_beyond_File)
    qed
  qed
  have st: "stat t' x = (if x = ?tgt then Some (IsFile c True w) else stat t x)" for x
  proof (cases "prefix ?tgt x")
    case True
    show ?thesis
    proof (cases "x = ?tgt")
      case True
      then show ?thesis using stat_store[OF tn par, of "File c r w" x] t' r by simp
    next
      case False
      then have "drop (length ?tgt) x \<noteq> []" using True by (auto simp: prefix_def)
      then show ?thesis using stat_store[OF tn par, of "File c r w" x] t' True False below[OF True False]
        by (simp add: stat_File)
    qed
  next
    case False
    then have "x \<noteq> ?tgt" by auto
    then show ?thesis using stat_store[OF tn par, of "File c r w" x] t' False by simp
  qed
  have "sstat src p = Some (IsFile c True w)" using s r by (simp add: sstat_IsFile)
  moreover have "wf_node t \<longrightarrow> wf_node t'" using t' wf_store[of t "File c r w" ?tgt] by simp
  ultimately show ?thesis using st by blast
qed

lemma wf_mkdir_flat: "mkdir_flat ok t p = Inr t' \<Longrightarrow> wf_node t \<Longrightarrow> wf_node t'"
  using wf_store[of t "Dir []" p]
  by (auto simp: mkdir_flat_def os_mkdir_def split: sum.splits if_splits option.splits)

lemma wf_mkdir_parents: "mkdir_parents ok t p = Inr t' \<Longrightarrow> wf_node t \<Longrightarrow> wf_node t'"
proof (induction ok t p arbitrary: t' rule: mkdir_parents.induct)
  case (1 ok t p)
  show ?case
  proof (cases "os_mkdir t p")
    case (Inr t1)
    then have "t' = t1" using 1(2) by (simp add: mkdir_parents.simps[of ok t p])
    moreover have "t1 = store t p (Dir [])" using Inr by (simp add: os_mkdir_Inr)
    ultimately show ?thesis using 1(3) wf_store[of t "Dir []" p] by simp
  next
    case (Inl e)
    show ?thesis
    proof (cases "e = FileNotFoundError")
      case True
      with Inl have p: "p \<noteq> []" using os_mkdir_ENOENT by blast
      from Inl True p 1(2) obtain t1 where
        t1: "mkdir_parents True t (butlast p) = Inr t1" and fl: "mkdir_flat ok t1 p = Inr t'"
        by (auto simp: mkdir_parents.simps[of ok t p] split: sum.splits)
      have "wf_node t1" using 1(1)[OF Inl True p t1 1(3)] .
      then show ?thesis using fl wf_mkdir_flat by blast
    next
      case False
      with Inl 1(2) have "t' = t"
        by (auto simp: mkdir_parents.simps[of ok t p] split: if_splits)
      then show ?thesis using 1(3) by simp
    qed
  qed
qed


lemma settle_idem: "settle h e (Some (settle h e x)) = settle h e x"
proof (cases e)
  case (IsFile c r w)
  show ?thesis
  proof (cases x)
    case None
    then show ?thesis using IsFile by simp
  next
    case (Some y)
    then show ?thesis using IsFile by (cases y) auto
  qed
next
  case IsDir
  then show ?thesis by (cases x) auto
qed

text \<open>A source directory.\<close>

lemma sync_item_dir:
  assumes "sync_item h dsz src rpath p s = Inr s'" and "sstat src p = Some IsDir"
    and "p \<noteq> []" and "stat (fst s) (rpath @ butlast p) \<noteq> None"
  shows "(\<forall>x. stat (fst s') x =
              (if x = rpath @ p then Some (settle h IsDir (stat (fst s) (rpath @ p))) else stat (fst s) x))
         \<and> (wf_node (fst s) \<longrightarrow> wf_node (fst s'))
         \<and> (snd s' = snd s \<or> snd s' = snd s @ [CreatedDir p])"
proof (cases "stat (fst s) (rpath @ p)")
  case None
  then have ne: "\<not> exists_path (fst s) (rpath @ p)" by (simp add: exists_path_stat)
  from assms(1,2) ne obtain t' where
    m: "mkdir_parents False (fst s) (rpath @ p) = Inr t'" and s': "s' = (t', snd s @ [CreatedDir p])"
    by (auto simp: sync_item_def sis_dir_sstat split: sum.splits)
  have anc: "stat (fst s) x \<noteq> None" if "prefix x (rpath @ p)" "x \<noteq> rpath @ p" for x
  proof -
    have "prefix x (butlast (rpath @ p))" using that prefix_butlast[of "rpath @ p" x] assms(3) by simp
    then obtain r where "rpath @ butlast p = x @ r" using assms(3)
      by (auto simp: prefix_def butlast_rpath)
    then show ?thesis using assms(4) stat_prefix_exists[of "fst s" x r] by simp
  qed
  have "stat t' x = (if x = rpath @ p then Some IsDir else stat (fst s) x)" for x
  proof (cases "x = rpath @ p")
    case True
    then show ?thesis using stat_mkdir_parents[OF m, of x] None by simp
  next
    case False
    show ?thesis
    proof (cases "prefix x (rpath @ p)")
      case True
      then have "stat (fst s) x \<noteq> None" using False by (rule anc)
      then show ?thesis using stat_mkdir_parents[OF m, of x] False by simp
    next
      case np: False
      then show ?thesis using stat_mkdir_parents[OF m, of x] False by simp
    qed
  qed
  moreover have "wf_node (fst s) \<longrightarrow> wf_node t'" using wf_mkdir_parents[OF m] by simp
  ultimately show ?thesis using s' None by simp
next
  case (Some y)
  then have "exists_path (fst s) (rpath @ p)" by (simp add: exists_path_stat)
  then have "s' = s" using assms(1,2) by (simp add: sync_item_def sis_dir_sstat)
  then show ?thesis using Some by auto
qed


lemma calculate_md5_kind:
  "calculate_md5 h sd p (Some n) =
     (md5_of h (kind n),
      if md5_of h (kind n) = None
      then [Md5Failed sd p (if kind n = IsDir then IsADirectoryError else PermissionError)]
      else [])"
  by (cases n) (simp_all add: calculate_md5_def)

lemma recopy_effect:
  assumes "recopy src rpath p ev s = Inr s'" and "p \<noteq> []"
  shows "\<exists>c w. sstat src p = Some (IsFile c True w)
           \<and> (\<forall>x. stat (fst s') x =
                  (if x = copy_target (fst s) p (rpath @ p) then Some (IsFile c True w)
                   else stat (fst s) x))
           \<and> (wf_node (fst s) \<longrightarrow> wf_node (fst s'))
           \<and> snd s' = snd s @ [ev]"
proof -
  from assms(1) obtain t' where c: "copy2 src p (fst s) (rpath @ p) = Inr t'" and
    s': "s' = (t', snd s @ [ev])"
    by (auto simp: recopy_def split: sum.splits)
  have "rpath @ p \<noteq> []" using assms(2) by simp
  from copy2_effect[OF c this] show ?thesis using s' by auto
qed

text \<open>A source file.\<close>

lemma sync_item_file:
  assumes "sync_item h dsz src rpath p s = Inr s'" and "sstat src p = Some (IsFile c r w)"
    and "p \<noteq> []"
  shows "(\<forall>x. \<not> strict_prefix (rpath @ p) x \<longrightarrow> stat (fst s') x =
              (if x = rpath @ p then Some (settle h (IsFile c r w) (stat (fst s) (rpath @ p)))
               else stat (fst s) x))
         \<and> (wf_node (fst s) \<longrightarrow> wf_node (fst s'))
         \<and> (\<exists>new. snd s' = snd s @ new \<and> (\<forall>ev\<in>set new. \<not> is_deletion ev)
                \<and> (digest_fails (IsFile c r w) (stat (fst s) (rpath @ p))
                     \<longrightarrow> (\<exists>sd err. Md5Failed sd p err \<in> set new)))"
proof -
  have sl: "slookup src p = Some (File c r w)" using assms(2) by (simp add: sstat_IsFile)
  have nd: "\<not> sis_dir src p" using sl by (simp add: sis_dir_def)
  have sz: "st_size dsz (slookup src p) = Inr (length c)" using sl by (simp add: st_size_def)
  have m1: "calculate_md5 h Source p (slookup src p)
              = (md5_of h (IsFile c r w), if r then [] else [Md5Failed Source p PermissionError])"
    using sl by (simp add: calculate_md5_def)
  have fin: ?thesis
    if "\<And>x. \<not> strict_prefix (rpath @ p) x \<Longrightarrow> stat (fst s') x =
              (if x = rpath @ p then Some (settle h (IsFile c r w) (stat (fst s) (rpath @ p)))
               else stat (fst s) x)"
      and "wf_node (fst s) \<longrightarrow> wf_node (fst s')"
      and "snd s' = snd s @ new"
      and "\<forall>ev\<in>set new. \<not> is_deletion ev"
      and "digest_fails (IsFile c r w) (stat (fst s) (rpath @ p))
             \<Longrightarrow> \<exists>sd err. Md5Failed sd p err \<in> set new"
    for new
  proof (intro conjI)
    show "\<forall>x. \<not> strict_prefix (rpath @ p) x \<longrightarrow> stat (fst s') x =
              (if x = rpath @ p then Some (settle h (IsFile c r w) (stat (fst s) (rpath @ p)))
               else stat (fst s) x)"
      using that(1) by blast
    show "wf_node (fst s) \<longrightarrow> wf_node (fst s')" by (rule that(2))
    show "\<exists>new. snd s' = snd s @ new \<and> (\<forall>ev\<in>set new. \<not> is_deletion ev)
                \<and> (digest_fails (IsFile c r w) (stat (fst s) (rpath @ p))
                     \<longrightarrow> (\<exists>sd err. Md5Failed sd p err \<in> set new))"
      using that(3,4,5) by (intro exI[of _ new]) blast
  qed
  show ?thesis
  proof (cases "stat (fst s) (rpath @ p)")
    case None
    then have "\<not> exists_path (fst s) (rpath @ p)" by (simp add: exists_path_stat)
    then have rc: "recopy src rpath p (CopiedFile p) s = Inr s'"
      using assms(1) nd by (simp add: sync_item_def)
    have tg: "copy_target (fst s) p (rpath @ p) = rpath @ p"
      using None by (simp add: copy_target_def is_dir_stat)
    from recopy_effect[OF rc assms(3)] obtain c0 w0 where
      a: "sstat src p = Some (IsFile c0 True w0)" and
      b: "\<And>x. stat (fst s') x = (if x = rpath @ p then Some (IsFile c0 True w0) else stat (fst s) x)" and
      wf: "wf_node (fst s) \<longrightarrow> wf_node (fst s')" and lg: "snd s' = snd s @ [CopiedFile p]"
      using tg by auto
    from a assms(2) have e: "c0 = c" "r" "w0 = w" by simp_all
    show ?thesis
    proof (rule fin[of "[CopiedFile p]"])
      show "stat (fst s') x =
              (if x = rpath @ p then Some (settle h (IsFile c r w) (stat (fst s) (rpath @ p)))
               else stat (fst s) x)" for x
        using b[of x] e None by simp
      show "digest_fails (IsFile c r w) (stat (fst s) (rpath @ p))
             \<Longrightarrow> \<exists>sd err. Md5Failed sd p err \<in> set [CopiedFile p]"
        using None by simp
    qed (use wf lg in simp_all)
  next
    case (Some y)
    then have ex: "exists_path (fst s) (rpath @ p)" by (simp add: exists_path_stat)
    from Some obtain n where n: "lookup (fst s) (rpath @ p) = Some n" and k: "kind n = y"
      by (auto simp: stat_def)
    obtain m where zr: "st_size dsz (lookup (fst s) (rpath @ p)) = Inr m"
      and zm: "\<And>c' r' w'. y = IsFile c' r' w' \<Longrightarrow> m = length c'"
      using n k by (cases n) (auto simp: st_size_def)
    obtain l2 where m2: "calculate_md5 h Replica p (lookup (fst s) (rpath @ p)) = (md5_of h y, l2)"
      and l2a: "\<forall>ev\<in>set l2. \<not> is_deletion ev"
      and l2b: "md5_of h y = None \<Longrightarrow> Md5Failed Replica p (if y = IsDir then IsADirectoryError else PermissionError) \<in> set l2"
      using n k calculate_md5_kind[of h Replica p n] by auto
    let ?l1 = "if r then [] else [Md5Failed Source p PermissionError]"
    have dec: "(\<exists>ev l. recopy src rpath p ev (fst s, snd s @ l) = Inr s'
                  \<and> (l = [] \<or> l = ?l1 @ l2) \<and> \<not> is_deletion ev
                  \<and> (length c \<noteq> m \<or> md5_of h (IsFile c r w) \<noteq> md5_of h y)
                  \<and> (length c = m \<longrightarrow> l = ?l1 @ l2))
               \<or> (s' = (fst s, snd s @ ?l1 @ l2) \<and> length c = m
                  \<and> md5_of h (IsFile c r w) = md5_of h y)"
    proof (cases "length c = m")
      case False
      then have "recopy src rpath p (UpdatedSize p) s = Inr s'"
        using assms(1) nd ex sz zr by (simp add: sync_item_def)
      then have "recopy src rpath p (UpdatedSize p) (fst s, snd s @ []) = Inr s'" by simp
      then show ?thesis using False
        by (intro disjI1 exI[of _ "UpdatedSize p"] exI[of _ "[]"]) simp
    next
      case True
      show ?thesis
      proof (cases "md5_of h (IsFile c r w) = md5_of h y")
        case eq: True
        have "sync_item h dsz src rpath p s = Inr (fst s, snd s @ ?l1 @ l2)"
          using nd ex sz zr m1 m2 True eq by (simp add: sync_item_def)
        then have "s' = (fst s, snd s @ ?l1 @ l2)" using assms(1) by simp
        then show ?thesis using True eq by blast
      next
        case ne: False
        have "sync_item h dsz src rpath p s
                = recopy src rpath p (UpdatedFile p) (fst s, snd s @ ?l1 @ l2)"
          using nd ex sz zr m1 m2 True ne by (simp add: sync_item_def)
        then have "recopy src rpath p (UpdatedFile p) (fst s, snd s @ ?l1 @ l2) = Inr s'"
          using assms(1) by simp
        then show ?thesis using ne True
          by (intro disjI1 exI[of _ "UpdatedFile p"] exI[of _ "?l1 @ l2"]) simp
      qed
    qed
    then consider
        (copy) ev l where "recopy src rpath p ev (fst s, snd s @ l) = Inr s'"
          "l = [] \<or> l = ?l1 @ l2" "\<not> is_deletion ev"
          "length c \<noteq> m \<or> md5_of h (IsFile c r w) \<noteq> md5_of h y"
          "length c = m \<longrightarrow> l = ?l1 @ l2"
      | (same) "s' = (fst s, snd s @ ?l1 @ l2)" "length c = m" "md5_of h (IsFile c r w) = md5_of h y"
      by blast
    then show ?thesis
    proof cases
      case copy
      from recopy_effect[OF copy(1) assms(3)] obtain c0 w0 where
        a: "sstat src p = Some (IsFile c0 True w0)" and
        b: "\<And>x. stat (fst s') x = (if x = copy_target (fst s) p (rpath @ p) then Some (IsFile c0 True w0)
                                   else stat (fst s) x)" and
        wf: "wf_node (fst s) \<longrightarrow> wf_node (fst s')" and lg: "snd s' = (snd s @ l) @ [ev]"
        by auto
      from a assms(2) have e: "c0 = c" "r" "w0 = w" by simp_all
      have nodel: "\<forall>ev'\<in>set (l @ [ev]). \<not> is_deletion ev'" using copy(2,3) l2a e by auto
      show ?thesis
      proof (cases y)
        case (IsFile c' r' w')
        then have tg: "copy_target (fst s) p (rpath @ p) = rpath @ p"
          using Some by (simp add: copy_target_def is_dir_stat)
        have st: "settle h (IsFile c r w) (Some y) = IsFile c r w"
          using copy(4) zm[OF IsFile] IsFile by auto
        have fl: "\<exists>sd err. Md5Failed sd p err \<in> set (l @ [ev])"
          if df: "digest_fails (IsFile c r w) (Some y)"
        proof -
          from df IsFile e have "length c = length c'" "\<not> r'" by simp_all
          then have "md5_of h y = None" "length c = m" using IsFile zm[OF IsFile] by simp_all
          then have "Md5Failed Replica p PermissionError \<in> set l2" and "l = ?l1 @ l2"
            using l2b IsFile copy(5) by auto
          then show ?thesis by auto
        qed
        show ?thesis
        proof (rule fin[of "l @ [ev]"])
          show "stat (fst s') x =
                (if x = rpath @ p then Some (settle h (IsFile c r w) (stat (fst s) (rpath @ p)))
                 else stat (fst s) x)" for x
            using b[of x] tg e st Some by simp
          show "snd s' = snd s @ (l @ [ev])" using lg by simp
          show "digest_fails (IsFile c r w) (stat (fst s) (rpath @ p))
                 \<Longrightarrow> \<exists>sd err. Md5Failed sd p err \<in> set (l @ [ev])"
            using fl Some by simp
        qed (use wf nodel in simp_all)
      next
        case IsDir
        then have tg: "copy_target (fst s) p (rpath @ p) = (rpath @ p) @ [last p]"
          using Some by (simp add: copy_target_def is_dir_stat)
        show ?thesis
        proof (rule fin[of "l @ [ev]"])
          show "stat (fst s') x =
                (if x = rpath @ p then Some (settle h (IsFile c r w) (stat (fst s) (rpath @ p)))
                 else stat (fst s) x)" if "\<not> strict_prefix (rpath @ p) x" for x
          proof -
            have "strict_prefix (rpath @ p) ((rpath @ p) @ [last p])"
              by (simp add: strict_prefix_def)
            then have "x \<noteq> (rpath @ p) @ [last p]" using that by blast
            then show ?thesis using b[of x] tg Some IsDir by simp
          qed
          show "snd s' = snd s @ (l @ [ev])" using lg by simp
          show "digest_fails (IsFile c r w) (stat (fst s) (rpath @ p))
                 \<Longrightarrow> \<exists>sd err. Md5Failed sd p err \<in> set (l @ [ev])"
            using Some IsDir by simp
        qed (use wf nodel in simp_all)
      qed
    next
      case same
      have st: "settle h (IsFile c r w) (Some y) = y"
      proof (cases y)
        case (IsFile c' r' w')
        then show ?thesis using same(2,3) zm[OF IsFile] by simp
      next
        case IsDir
        then show ?thesis by simp
      qed
      have nodel: "\<forall>ev'\<in>set (?l1 @ l2). \<not> is_deletion ev'" using l2a by auto
      have fl: "\<exists>sd err. Md5Failed sd p err \<in> set (?l1 @ l2)"
        if df: "digest_fails (IsFile c r w) (Some y)"
      proof (cases r)
        case True
        from df obtain c' r' w' where y: "y = IsFile c' r' w'" by (cases y) auto
        with df True have "\<not> r'" by simp
        then have "md5_of h y = None" using y by simp
        then show ?thesis using l2b y by auto
      next
        case False
        then show ?thesis by auto
      qed
      show ?thesis
      proof (rule fin[of "?l1 @ l2"])
        show "stat (fst s') x =
              (if x = rpath @ p then Some (settle h (IsFile c r w) (stat (fst s) (rpath @ p)))
               else stat (fst s) x)" for x
          using same(1) st Some by simp
        show "snd s' = snd s @ (?l1 @ l2)" using same(1) by simp
        show "wf_node (fst s) \<longrightarrow> wf_node (fst s')" using same(1) by simp
        show "digest_fails (IsFile c r w) (stat (fst s) (rpath @ p))
               \<Longrightarrow> \<exists>sd err. Md5Failed sd p err \<in> set (?l1 @ l2)"
          using fl Some by simp
      qed (use nodel in simp_all)
    qed
  qed
qed


subsection \<open>The source side\<close>

lemma sstat_Some: "sstat (Some t) q = stat t q"
  by (simp add: sstat_def slookup_def stat_def)

lemma sstat_None_src: "sstat None q = None"
  by (simp add: sstat_def slookup_def)

lemma slookup_Some: "slookup (Some t) q = lookup t q"
  by (simp add: slookup_def)

lemma slookup_Dir_src: "slookup src d = Some x \<Longrightarrow> \<exists>t. src = Some t"
  by (cases src) (simp_all add: slookup_def)

lemma sstat_below_dir: "sstat src (p @ q) \<noteq> None \<Longrightarrow> q \<noteq> [] \<Longrightarrow> sstat src p = Some IsDir"
proof (cases src)
  case None
  assume "sstat src (p @ q) \<noteq> None"
  then show ?thesis using None by (simp add: sstat_None_src)
next
  case (Some t)
  assume "sstat src (p @ q) \<noteq> None" and "q \<noteq> []"
  then show ?thesis using Some stat_below_dir[of t p q] by (simp add: sstat_Some)
qed

lemma sstat_prefix_exists: "sstat src (p @ q) \<noteq> None \<Longrightarrow> sstat src p \<noteq> None"
  by (rule notI) (simp add: sstat_None_append)

lemma slisting_member:
  assumes "slookup src d = Some (Dir es0)"
  shows "n \<in> set (map fst es0) \<longleftrightarrow> sstat src (d @ [n]) \<noteq> None"
proof -
  from slookup_Dir_src[OF assms] obtain t where t: "src = Some t" by blast
  then have "lookup t d = Some (Dir es0)" using assms by (simp add: slookup_Some)
  then show ?thesis using t listing_member[of t d es0 n] by (simp add: sstat_Some)
qed

lemma slisting_dir_in:
  assumes "slookup src d = Some (Dir es0)" and "sstat src (d @ [n]) = Some IsDir"
  shows "n \<in> set (map fst (filter snd (map (\<lambda>(n, c). (n, kind c = IsDir)) es0)))"
proof -
  from slookup_Dir_src[OF assms(1)] obtain t where t: "src = Some t" by blast
  then have "lookup t d = Some (Dir es0)" using assms(1) by (simp add: slookup_Some)
  moreover have "stat t (d @ [n]) = Some IsDir" using assms(2) t by (simp add: sstat_Some)
  ultimately show ?thesis by (rule listing_dir_in)
qed

lemma listing_dir_names:
  "set (map fst (filter snd (map (\<lambda>(n, c). (n, kind c = IsDir)) es0))) \<subseteq> set (map fst es0)"
  by force

subsection \<open>Composing parts of the first loop\<close>

lemma propagate_post_refl: "propagate_post h src rpath (\<lambda>q. False) s s"
  by (simp add: propagate_post_def)

lemma propagate_post_cong:
  assumes "propagate_post h src rpath c s s'"
    and "\<And>q. sstat src q \<noteq> None \<Longrightarrow> c q = c' q"
  shows "propagate_post h src rpath c' s s'"
proof -
  have e: "c q = c' q" if "sstat src q = Some e" for q e using that assms(2)[of q] by simp
  from assms(1) have
    st: "\<And>q e. sstat src q = Some e \<Longrightarrow> stat (fst s') (rpath @ q) =
            (if c q then Some (settle h e (stat (fst s) (rpath @ q))) else stat (fst s) (rpath @ q))" and
    wf: "wf_node (fst s) \<longrightarrow> wf_node (fst s')" and
    lg: "\<exists>new. snd s' = snd s @ new \<and> (\<forall>ev\<in>set new. \<not> is_deletion ev)
             \<and> (\<forall>q e. c q \<and> sstat src q = Some e \<and> digest_fails e (stat (fst s) (rpath @ q))
                     \<longrightarrow> (\<exists>sd err. Md5Failed sd q err \<in> set new))"
    by (simp_all add: propagate_post_def)
  from lg obtain new where n: "snd s' = snd s @ new" "\<forall>ev\<in>set new. \<not> is_deletion ev"
    "\<And>q e. c q \<Longrightarrow> sstat src q = Some e \<Longrightarrow> digest_fails e (stat (fst s) (rpath @ q))
        \<Longrightarrow> \<exists>sd err. Md5Failed sd q err \<in> set new"
    by blast
  have st': "stat (fst s') (rpath @ q) =
            (if c' q then Some (settle h e (stat (fst s) (rpath @ q))) else stat (fst s) (rpath @ q))"
    if "sstat src q = Some e" for q e
    using st[OF that] e[OF that] by simp
  have fl: "\<exists>sd err. Md5Failed sd q err \<in> set new"
    if "c' q" "sstat src q = Some e" "digest_fails e (stat (fst s) (rpath @ q))" for q e
    using n(3)[of q e] that e[of q e] by simp
  show ?thesis
    unfolding propagate_post_def
  proof (intro conjI)
    show "\<forall>q e. sstat src q = Some e \<longrightarrow> stat (fst s') (rpath @ q) =
            (if c' q then Some (settle h e (stat (fst s) (rpath @ q))) else stat (fst s) (rpath @ q))"
      by (intro allI impI) (rule st')
    show "wf_node (fst s) \<longrightarrow> wf_node (fst s')" by (rule wf)
    show "\<exists>new. snd s' = snd s @ new \<and> (\<forall>ev\<in>set new. \<not> is_deletion ev)
             \<and> (\<forall>q e. c' q \<and> sstat src q = Some e \<and> digest_fails e (stat (fst s) (rpath @ q))
                     \<longrightarrow> (\<exists>sd err. Md5Failed sd q err \<in> set new))"
    proof (intro exI[of _ new] conjI allI impI)
      fix q e
      assume "c' q \<and> sstat src q = Some e \<and> digest_fails e (stat (fst s) (rpath @ q))"
      then show "\<exists>sd err. Md5Failed sd q err \<in> set new" using fl[of q e] by simp
    qed (use n(1,2) in simp_all)
  qed
qed

lemma propagate_post_trans:
  assumes "propagate_post h src rpath c1 s s1" and "propagate_post h src rpath c2 s1 s2"
  shows "propagate_post h src rpath (\<lambda>q. c1 q \<or> c2 q) s s2"
proof -
  from assms(1) have
    st1: "\<And>q e. sstat src q = Some e \<Longrightarrow> stat (fst s1) (rpath @ q) =
            (if c1 q then Some (settle h e (stat (fst s) (rpath @ q))) else stat (fst s) (rpath @ q))" and
    wf1: "wf_node (fst s) \<longrightarrow> wf_node (fst s1)" and
    lg1: "\<exists>new. snd s1 = snd s @ new \<and> (\<forall>ev\<in>set new. \<not> is_deletion ev)
             \<and> (\<forall>q e. c1 q \<and> sstat src q = Some e \<and> digest_fails e (stat (fst s) (rpath @ q))
                     \<longrightarrow> (\<exists>sd err. Md5Failed sd q err \<in> set new))"
    by (simp_all add: propagate_post_def)
  from assms(2) have
    st2: "\<And>q e. sstat src q = Some e \<Longrightarrow> stat (fst s2) (rpath @ q) =
            (if c2 q then Some (settle h e (stat (fst s1) (rpath @ q))) else stat (fst s1) (rpath @ q))" and
    wf2: "wf_node (fst s1) \<longrightarrow> wf_node (fst s2)" and
    lg2: "\<exists>new. snd s2 = snd s1 @ new \<and> (\<forall>ev\<in>set new. \<not> is_deletion ev)
             \<and> (\<forall>q e. c2 q \<and> sstat src q = Some e \<and> digest_fails e (stat (fst s1) (rpath @ q))
                     \<longrightarrow> (\<exists>sd err. Md5Failed sd q err \<in> set new))"
    by (simp_all add: propagate_post_def)
  from lg1 obtain n1 where n1: "snd s1 = snd s @ n1" "\<forall>ev\<in>set n1. \<not> is_deletion ev"
    "\<And>q e. c1 q \<Longrightarrow> sstat src q = Some e \<Longrightarrow> digest_fails e (stat (fst s) (rpath @ q))
        \<Longrightarrow> \<exists>sd err. Md5Failed sd q err \<in> set n1"
    by blast
  from lg2 obtain n2 where n2: "snd s2 = snd s1 @ n2" "\<forall>ev\<in>set n2. \<not> is_deletion ev"
    "\<And>q e. c2 q \<Longrightarrow> sstat src q = Some e \<Longrightarrow> digest_fails e (stat (fst s1) (rpath @ q))
        \<Longrightarrow> \<exists>sd err. Md5Failed sd q err \<in> set n2"
    by blast
  have st: "stat (fst s2) (rpath @ q) =
            (if c1 q \<or> c2 q then Some (settle h e (stat (fst s) (rpath @ q)))
             else stat (fst s) (rpath @ q))"
    if "sstat src q = Some e" for q e
    using st1[OF that] st2[OF that] by (simp add: settle_idem)
  have fl: "\<exists>sd err. Md5Failed sd q err \<in> set (n1 @ n2)"
    if c: "c1 q \<or> c2 q" and e: "sstat src q = Some e"
      and df: "digest_fails e (stat (fst s) (rpath @ q))" for q e
  proof (cases "c1 q")
    case True
    then show ?thesis using n1(3)[OF True e df] by auto
  next
    case False
    then have "c2 q" using c by simp
    moreover have "stat (fst s1) (rpath @ q) = stat (fst s) (rpath @ q)" using st1[OF e] False by simp
    ultimately show ?thesis using n2(3)[of q e] e df by auto
  qed
  show ?thesis
    unfolding propagate_post_def
  proof (intro conjI)
    show "\<forall>q e. sstat src q = Some e \<longrightarrow> stat (fst s2) (rpath @ q) =
            (if c1 q \<or> c2 q then Some (settle h e (stat (fst s) (rpath @ q)))
             else stat (fst s) (rpath @ q))"
      by (intro allI impI) (rule st)
    show "wf_node (fst s) \<longrightarrow> wf_node (fst s2)" using wf1 wf2 by simp
    have a: "snd s2 = snd s @ (n1 @ n2)" using n1(1) n2(1) by simp
    have b: "\<forall>ev\<in>set (n1 @ n2). \<not> is_deletion ev" using n1(2) n2(2) by auto
    show "\<exists>new. snd s2 = snd s @ new \<and> (\<forall>ev\<in>set new. \<not> is_deletion ev)
             \<and> (\<forall>q e. (c1 q \<or> c2 q) \<and> sstat src q = Some e
                       \<and> digest_fails e (stat (fst s) (rpath @ q))
                     \<longrightarrow> (\<exists>sd err. Md5Failed sd q err \<in> set new))"
    proof (intro exI[of _ "n1 @ n2"] conjI allI impI)
      fix q e
      assume "(c1 q \<or> c2 q) \<and> sstat src q = Some e \<and> digest_fails e (stat (fst s) (rpath @ q))"
      then show "\<exists>sd err. Md5Failed sd q err \<in> set (n1 @ n2)" using fl[of q e] by simp
    qed (use a b in simp_all)
  qed
qed


subsection \<open>The first loop\<close>

lemma sync_item_post:
  assumes "sync_item h dsz src rpath p s = Inr s'" and "sstat src p = Some e"
    and "p \<noteq> []" and "stat (fst s) (rpath @ butlast p) \<noteq> None"
  shows "propagate_post h src rpath (\<lambda>q. q = p) s s'"
proof (cases e)
  case IsDir
  from sync_item_dir[OF assms(1) _ assms(3,4)] assms(2) IsDir have
    st: "\<And>x. stat (fst s') x =
              (if x = rpath @ p then Some (settle h IsDir (stat (fst s) (rpath @ p))) else stat (fst s) x)" and
    wf: "wf_node (fst s) \<longrightarrow> wf_node (fst s')" and
    lg: "snd s' = snd s \<or> snd s' = snd s @ [CreatedDir p]"
    by simp_all
  from lg obtain new where n: "snd s' = snd s @ new" "\<forall>ev\<in>set new. \<not> is_deletion ev"
  proof
    assume "snd s' = snd s"
    then show ?thesis using that[of "[]"] by simp
  next
    assume "snd s' = snd s @ [CreatedDir p]"
    then show ?thesis using that[of "[CreatedDir p]"] by simp
  qed
  show ?thesis
    unfolding propagate_post_def
  proof (intro conjI)
    show "\<forall>q e'. sstat src q = Some e' \<longrightarrow> stat (fst s') (rpath @ q) =
            (if q = p then Some (settle h e' (stat (fst s) (rpath @ q))) else stat (fst s) (rpath @ q))"
      using st assms(2) IsDir by auto
    show "wf_node (fst s) \<longrightarrow> wf_node (fst s')" by (rule wf)
    show "\<exists>new. snd s' = snd s @ new \<and> (\<forall>ev\<in>set new. \<not> is_deletion ev)
             \<and> (\<forall>q e'. q = p \<and> sstat src q = Some e' \<and> digest_fails e' (stat (fst s) (rpath @ q))
                     \<longrightarrow> (\<exists>sd err. Md5Failed sd q err \<in> set new))"
      using n assms(2) IsDir by (intro exI[of _ new]) auto
  qed
next
  case (IsFile c r w)
  from sync_item_file[OF assms(1) _ assms(3), of c r w] assms(2) IsFile have
    st: "\<And>x. \<not> strict_prefix (rpath @ p) x \<Longrightarrow> stat (fst s') x =
              (if x = rpath @ p then Some (settle h (IsFile c r w) (stat (fst s) (rpath @ p)))
               else stat (fst s) x)" and
    wf: "wf_node (fst s) \<longrightarrow> wf_node (fst s')" and
    lg: "\<exists>new. snd s' = snd s @ new \<and> (\<forall>ev\<in>set new. \<not> is_deletion ev)
                \<and> (digest_fails (IsFile c r w) (stat (fst s) (rpath @ p))
                     \<longrightarrow> (\<exists>sd err. Md5Failed sd p err \<in> set new))"
    by simp_all
  from lg obtain new where n: "snd s' = snd s @ new" "\<forall>ev\<in>set new. \<not> is_deletion ev"
    "digest_fails (IsFile c r w) (stat (fst s) (rpath @ p)) \<longrightarrow> (\<exists>sd err. Md5Failed sd p err \<in> set new)"
    by auto
  have ns: "\<not> strict_prefix (rpath @ p) (rpath @ q)" if "sstat src q = Some e'" for q e'
  proof
    assume "strict_prefix (rpath @ p) (rpath @ q)"
    then obtain r' where "q = p @ r'" "r' \<noteq> []" by (auto simp: strict_prefix_def prefix_def)
    then have "sstat src p = Some IsDir" using that sstat_below_dir[of src p r'] by simp
    then show False using assms(2) IsFile by simp
  qed
  show ?thesis
    unfolding propagate_post_def
  proof (intro conjI)
    show "\<forall>q e'. sstat src q = Some e' \<longrightarrow> stat (fst s') (rpath @ q) =
            (if q = p then Some (settle h e' (stat (fst s) (rpath @ q))) else stat (fst s) (rpath @ q))"
    proof (intro allI impI)
      fix q e' assume q: "sstat src q = Some e'"
      show "stat (fst s') (rpath @ q) =
            (if q = p then Some (settle h e' (stat (fst s) (rpath @ q))) else stat (fst s) (rpath @ q))"
        using st[OF ns[OF q]] q assms(2) IsFile by auto
    qed
    show "wf_node (fst s) \<longrightarrow> wf_node (fst s')" by (rule wf)
    show "\<exists>new. snd s' = snd s @ new \<and> (\<forall>ev\<in>set new. \<not> is_deletion ev)
             \<and> (\<forall>q e'. q = p \<and> sstat src q = Some e' \<and> digest_fails e' (stat (fst s) (rpath @ q))
                     \<longrightarrow> (\<exists>sd err. Md5Failed sd q err \<in> set new))"
      using n assms(2) IsFile by (intro exI[of _ new]) auto
  qed
qed

lemma propagate_children:
  "for_each (\<lambda>n. sync_item h dsz src rpath (d @ [n])) ns s = Inr s'
   \<Longrightarrow> \<forall>n\<in>set ns. sstat src (d @ [n]) \<noteq> None
   \<Longrightarrow> stat (fst s) (rpath @ d) \<noteq> None
   \<Longrightarrow> propagate_post h src rpath (\<lambda>q. \<exists>n\<in>set ns. q = d @ [n]) s s'"
proof (induction ns arbitrary: s)
  case Nil
  then show ?case using propagate_post_refl[of h src rpath s] by simp
next
  case (Cons n ns)
  from Cons(2) obtain s1 where
    a: "sync_item h dsz src rpath (d @ [n]) s = Inr s1" and
    b: "for_each (\<lambda>n. sync_item h dsz src rpath (d @ [n])) ns s1 = Inr s'"
    by (auto split: sum.splits)
  from Cons(3) obtain e where e: "sstat src (d @ [n]) = Some e" by auto
  have p1: "propagate_post h src rpath (\<lambda>q. q = d @ [n]) s s1"
    using sync_item_post[OF a e] Cons(4) by simp
  from e have "sstat src d \<noteq> None" using sstat_prefix_exists[of src d "[n]"] by simp
  then obtain ed where ed: "sstat src d = Some ed" by auto
  have "stat (fst s1) (rpath @ d) = stat (fst s) (rpath @ d)"
    using p1 ed by (simp add: propagate_post_def)
  then have c: "stat (fst s1) (rpath @ d) \<noteq> None" using Cons(4) by simp
  have p2: "propagate_post h src rpath (\<lambda>q. \<exists>m\<in>set ns. q = d @ [m]) s1 s'"
    using Cons(1)[OF b _ c] Cons(3) by simp
  show ?case
    using propagate_post_trans[OF p1 p2] by (rule propagate_post_cong) auto
qed

lemma not_strict_prefix_sibling: "\<not> strict_prefix (d @ [n]) (d @ [m])"
  by (auto simp: strict_prefix_def prefix_def)

lemma propagate_dirs:
  assumes loop: "\<And>d s s'. rglob_loop k (list_source src) (sync_item h dsz src rpath) d s = Some (Inr s')
            \<Longrightarrow> stat (fst s) (rpath @ d) \<noteq> None
            \<Longrightarrow> propagate_post h src rpath (strict_prefix d) s s'"
  shows "rglob_dirs k (list_source src) (sync_item h dsz src rpath) d ns s = Some (Inr s')
     \<Longrightarrow> \<forall>n\<in>set ns. sstat src (d @ [n]) \<noteq> None \<and> stat (fst s) (rpath @ d @ [n]) \<noteq> None
     \<Longrightarrow> propagate_post h src rpath (\<lambda>q. \<exists>n\<in>set ns. strict_prefix (d @ [n]) q) s s'"
proof (induction ns arbitrary: s)
  case Nil
  then show ?case using propagate_post_refl[of h src rpath s] by simp
next
  case (Cons n ns)
  from Cons(2) obtain s1 where
    a: "rglob_loop k (list_source src) (sync_item h dsz src rpath) (d @ [n]) s = Some (Inr s1)" and
    b: "rglob_dirs k (list_source src) (sync_item h dsz src rpath) d ns s1 = Some (Inr s')"
    by (auto split: option.splits sum.splits)
  have p1: "propagate_post h src rpath (strict_prefix (d @ [n])) s s1"
    using loop[OF a] Cons(3) by simp
  have c: "\<forall>m\<in>set ns. sstat src (d @ [m]) \<noteq> None \<and> stat (fst s1) (rpath @ d @ [m]) \<noteq> None"
  proof
    fix m assume m: "m \<in> set ns"
    then obtain e where e: "sstat src (d @ [m]) = Some e" using Cons(3) by auto
    have "stat (fst s1) (rpath @ d @ [m]) = stat (fst s) (rpath @ d @ [m])"
      using p1 e not_strict_prefix_sibling[of d n m] by (simp add: propagate_post_def)
    then show "sstat src (d @ [m]) \<noteq> None \<and> stat (fst s1) (rpath @ d @ [m]) \<noteq> None"
      using Cons(3) m by simp
  qed
  have p2: "propagate_post h src rpath (\<lambda>q. \<exists>m\<in>set ns. strict_prefix (d @ [m]) q) s1 s'"
    using Cons(1)[OF b c] .
  show ?case
    using propagate_post_trans[OF p1 p2] by (rule propagate_post_cong) auto
qed


lemma propagate_post_stat:
  "propagate_post h src rpath c s s' \<Longrightarrow> sstat src q = Some e \<Longrightarrow>
   stat (fst s') (rpath @ q) =
     (if c q then Some (settle h e (stat (fst s) (rpath @ q))) else stat (fst s) (rpath @ q))"
  by (simp add: propagate_post_def)

lemma propagate_visit:
  "rglob_loop k (list_source src) (sync_item h dsz src rpath) d s = Some (Inr s')
   \<Longrightarrow> stat (fst s) (rpath @ d) \<noteq> None
   \<Longrightarrow> propagate_post h src rpath (strict_prefix d) s s'"
proof (induction k arbitrary: d s s')
  case 0
  then show ?case by simp
next
  case (Suc k)
  let ?body = "sync_item h dsz src rpath"
  from Suc(2) obtain es where ls: "list_source src s d = Inr es"
    by (cases "list_source src s d") auto
  then obtain es0 where es0: "slookup src d = Some (Dir es0)"
    and es: "es = map (\<lambda>(n, c). (n, kind c = IsDir)) es0"
    by (auto simp: list_source_def scandir_Inr)
  have names: "map fst es = map fst es0" unfolding es by (rule listing_names)
  from Suc(2) ls obtain s1 where f1: "for_each (\<lambda>n. ?body (d @ [n])) (map fst es) s = Inr s1"
    by (cases "for_each (\<lambda>n. ?body (d @ [n])) (map fst es) s") auto
  have ls1: "list_source src s1 d = Inr es" using ls by (simp add: list_source_def)
  let ?ds = "map fst (filter snd es)"
  have r2: "rglob_dirs k (list_source src) ?body d ?ds s1 = Some (Inr s')"
    using Suc(2) ls f1 ls1 by simp
  have ch: "\<forall>n\<in>set (map fst es). sstat src (d @ [n]) \<noteq> None"
    using slisting_member[OF es0] names by simp
  have p1: "propagate_post h src rpath (\<lambda>q. \<exists>n\<in>set (map fst es). q = d @ [n]) s s1"
    using propagate_children[OF f1 ch Suc(3)] .
  have sub: "set ?ds \<subseteq> set (map fst es)" by auto
  have dd: "\<forall>n\<in>set ?ds. sstat src (d @ [n]) \<noteq> None \<and> stat (fst s1) (rpath @ d @ [n]) \<noteq> None"
  proof
    fix n assume n: "n \<in> set ?ds"
    then have nn: "n \<in> set (map fst es)" using sub by blast
    then obtain e where e: "sstat src (d @ [n]) = Some e" using ch by auto
    have "\<exists>m\<in>set (map fst es). d @ [n] = d @ [m]" using nn by blast
    then have "stat (fst s1) (rpath @ (d @ [n])) = Some (settle h e (stat (fst s) (rpath @ (d @ [n]))))"
      using propagate_post_stat[OF p1 e] by (simp only: if_True)
    then show "sstat src (d @ [n]) \<noteq> None \<and> stat (fst s1) (rpath @ d @ [n]) \<noteq> None"
      using e by simp
  qed
  have p2: "propagate_post h src rpath (\<lambda>q. \<exists>n\<in>set ?ds. strict_prefix (d @ [n]) q) s1 s'"
    using propagate_dirs[of k src h dsz rpath, OF Suc(1) r2 dd] .
  have eq: "((\<exists>n\<in>set (map fst es). q = d @ [n]) \<or> (\<exists>n\<in>set ?ds. strict_prefix (d @ [n]) q))
              = strict_prefix d q" if q: "sstat src q \<noteq> None" for q
  proof
    assume "(\<exists>n\<in>set (map fst es). q = d @ [n]) \<or> (\<exists>n\<in>set ?ds. strict_prefix (d @ [n]) q)"
    then show "strict_prefix d q" by (auto simp: strict_prefix_def prefix_def)
  next
    assume "strict_prefix d q"
    then obtain n r where qq: "q = (d @ [n]) @ r"
      by (cases "drop (length d) q") (auto simp: strict_prefix_def prefix_def)
    then have "sstat src (d @ [n]) \<noteq> None" using q sstat_prefix_exists by blast
    then have nin: "n \<in> set (map fst es)" using slisting_member[OF es0] names by simp
    show "(\<exists>n\<in>set (map fst es). q = d @ [n]) \<or> (\<exists>n\<in>set ?ds. strict_prefix (d @ [n]) q)"
    proof (cases "r = []")
      case True
      then show ?thesis using qq nin by auto
    next
      case False
      then have "sstat src (d @ [n]) = Some IsDir" using q qq sstat_below_dir[of src "d @ [n]" r]
        by simp
      then have "n \<in> set ?ds" using slisting_dir_in[OF es0] es by simp
      moreover have "strict_prefix (d @ [n]) q" using qq False
        by (auto simp: strict_prefix_def prefix_def)
      ultimately show ?thesis by blast
    qed
  qed
  show ?case using propagate_post_trans[OF p1 p2] eq by (rule propagate_post_cong)
qed

lemma propagate_returns:
  assumes "propagate fuel h dsz src rpath s = Some (Inr s')" and "stat (fst s) rpath \<noteq> None"
  shows "propagate_post h src rpath (\<lambda>q. q \<noteq> []) s s'"
proof (cases "sis_dir src []")
  case True
  then have "rglob_loop fuel (list_source src) (sync_item h dsz src rpath) [] s = Some (Inr s')"
    using assms(1) by (simp add: propagate_def)
  then have "propagate_post h src rpath (strict_prefix []) s s'"
    using propagate_visit[of fuel src h dsz rpath "[]" s s'] assms(2) by simp
  then show ?thesis by (rule propagate_post_cong) (auto simp: strict_prefix_def)
next
  case False
  then have s': "s' = s" using assms(1) by (simp add: propagate_def)
  have none: "sstat src q = None" if "q \<noteq> []" for q
  proof (rule ccontr)
    assume "sstat src q \<noteq> None"
    then have "sstat src [] = Some IsDir" using that sstat_below_dir[of src "[]" q] by simp
    then show False using False by (simp add: sis_dir_sstat)
  qed
  have "propagate_post h src rpath (\<lambda>q. False) s s'" using s' by (simp add: propagate_post_refl)
  then show ?thesis
  proof (rule propagate_post_cong)
    fix q assume "sstat src q \<noteq> None"
    then show "False = (q \<noteq> [])" using none[of q] by (cases "q = []") simp_all
  qed
qed


subsection \<open>A pass that returns\<close>

lemma ensure_replica_returns:
  assumes "ensure_replica rpath s = Inr s0"
  shows "stat (fst s0) rpath = (if stat (fst s) rpath = None then Some IsDir else stat (fst s) rpath)
       \<and> (\<forall>q. q \<noteq> [] \<longrightarrow> stat (fst s0) (rpath @ q) = stat (fst s) (rpath @ q))
       \<and> (wf_node (fst s) \<longrightarrow> wf_node (fst s0))
       \<and> (snd s0 = snd s \<or> snd s0 = snd s @ [CreatedReplica])"
proof (cases "stat (fst s) rpath")
  case None
  then have "\<not> exists_path (fst s) rpath" by (simp add: exists_path_stat)
  with assms obtain t' where m: "mkdir_parents False (fst s) rpath = Inr t'"
    and s0: "s0 = (t', snd s @ [CreatedReplica])"
    by (auto simp: ensure_replica_def split: sum.splits)
  have a: "stat t' rpath = Some IsDir" using stat_mkdir_parents[OF m, of rpath] None by simp
  have b: "stat t' (rpath @ q) = stat (fst s) (rpath @ q)" if "q \<noteq> []" for q
    using stat_mkdir_parents[OF m, of "rpath @ q"] that by simp
  have c: "wf_node (fst s) \<longrightarrow> wf_node t'" using wf_mkdir_parents[OF m] by simp
  show ?thesis using a b c s0 None by simp
next
  case (Some y)
  then have "s0 = s" using assms by (simp add: ensure_replica_def exists_path_stat)
  then show ?thesis using Some by simp
qed

lemma propagate_root:
  assumes "propagate fuel h dsz src rpath s = Some (Inr s')" and "stat (fst s) rpath \<noteq> None"
  shows "stat (fst s') rpath = stat (fst s) rpath"
proof (cases "sis_dir src []")
  case True
  then have e: "sstat src [] = Some IsDir" by (simp add: sis_dir_sstat)
  show ?thesis using propagate_post_stat[OF propagate_returns[OF assms] e] by simp
next
  case False
  then show ?thesis using assms(1) by (simp add: propagate_def)
qed

lemma stale_root: "stale src rpath [] (rpath @ q) \<longleftrightarrow> q \<noteq> [] \<and> sstat src q = None"
  by (auto simp: stale_def)

lemma pass_returns:
  assumes "sync_directories fuel h dsz src rpath s = Some (Inr s')" and "wf_node (fst s)"
  shows "stat (fst s') rpath = (if stat (fst s) rpath = None then Some IsDir else stat (fst s) rpath)"
    and "\<And>q. q \<noteq> [] \<Longrightarrow> stat (fst s') (rpath @ q) =
            (case sstat src q of None \<Rightarrow> None
             | Some e \<Rightarrow> Some (settle h e (stat (fst s) (rpath @ q))))"
    and "wf_node (fst s')"
    and "\<exists>new. snd s' = snd s @ new
           \<and> (\<forall>ev\<in>set new. is_deletion ev \<longrightarrow> (\<exists>p. p \<noteq> [] \<and> (ev = DeletedDir p \<or> ev = DeletedFile p)))
           \<and> (\<forall>q e. q \<noteq> [] \<and> sstat src q = Some e \<and> digest_fails e (stat (fst s) (rpath @ q))
                 \<longrightarrow> (\<exists>sd err. Md5Failed sd q err \<in> set new))"
proof -
  from assms(1) obtain s0 s1 where
    e: "ensure_replica rpath s = Inr s0" and
    p: "propagate fuel h dsz src rpath s0 = Some (Inr s1)" and
    r: "prune fuel src rpath s1 = Some (Inr s')"
    by (auto simp: sync_directories_def split: sum.splits option.splits)
  from ensure_replica_returns[OF e] have
    e1: "stat (fst s0) rpath = (if stat (fst s) rpath = None then Some IsDir else stat (fst s) rpath)" and
    e2: "\<And>q. q \<noteq> [] \<Longrightarrow> stat (fst s0) (rpath @ q) = stat (fst s) (rpath @ q)" and
    e3: "wf_node (fst s0)" and
    e4: "snd s0 = snd s \<or> snd s0 = snd s @ [CreatedReplica]"
    using assms(2) by simp_all
  have ex0: "stat (fst s0) rpath \<noteq> None" using e1 by simp
  note pp = propagate_returns[OF p ex0]
  have p1: "stat (fst s1) rpath = stat (fst s0) rpath" using propagate_root[OF p ex0] .
  have p3: "wf_node (fst s1)" using pp e3 by (simp add: propagate_post_def)
  from pp obtain n1 where n1: "snd s1 = snd s0 @ n1" "\<forall>ev\<in>set n1. \<not> is_deletion ev"
    "\<And>q e. q \<noteq> [] \<Longrightarrow> sstat src q = Some e \<Longrightarrow> digest_fails e (stat (fst s0) (rpath @ q))
        \<Longrightarrow> \<exists>sd err. Md5Failed sd q err \<in> set n1"
    unfolding propagate_post_def by blast
  from prune_returns[OF p3 r] have pr: "prune_post src rpath (stale src rpath []) s1 s'" by simp
  then have r1: "\<And>x. stat (fst s') x = (if stale src rpath [] x then None else stat (fst s1) x)"
    and r3: "wf_node (fst s')"
    by (simp_all add: prune_post_def)
  from pr obtain n2 where n2: "snd s' = snd s1 @ n2" "\<forall>ev\<in>set n2. pruned_event src rpath (fst s1) ev"
    by (auto simp: prune_post_def)
  have "\<not> stale src rpath [] rpath" using stale_root[of src rpath "[]"] by simp
  then show "stat (fst s') rpath = (if stat (fst s) rpath = None then Some IsDir else stat (fst s) rpath)"
    using r1[of rpath] p1 e1 by simp
  show "stat (fst s') (rpath @ q) =
            (case sstat src q of None \<Rightarrow> None
             | Some e \<Rightarrow> Some (settle h e (stat (fst s) (rpath @ q))))" if "q \<noteq> []" for q
  proof (cases "sstat src q")
    case None
    then show ?thesis using r1[of "rpath @ q"] that by (simp add: stale_root)
  next
    case (Some e)
    then have "stat (fst s1) (rpath @ q) = Some (settle h e (stat (fst s0) (rpath @ q)))"
      using propagate_post_stat[OF pp Some] that by simp
    then show ?thesis using r1[of "rpath @ q"] Some e2[OF that] by (simp add: stale_root)
  qed
  show "wf_node (fst s')" by (rule r3)
  obtain n0 where n0: "snd s0 = snd s @ n0" "\<forall>ev\<in>set n0. \<not> is_deletion ev"
  proof (cases "snd s0 = snd s")
    case True
    then show ?thesis using that[of "[]"] by simp
  next
    case False
    then have "snd s0 = snd s @ [CreatedReplica]" using e4 by simp
    then show ?thesis using that[of "[CreatedReplica]"] by simp
  qed
  have del: "\<exists>p. p \<noteq> [] \<and> (ev = DeletedDir p \<or> ev = DeletedFile p)"
    if "ev \<in> set (n0 @ n1 @ n2)" "is_deletion ev" for ev
  proof -
    from that n0(2) n1(2) have "ev \<in> set n2" by auto
    then have "pruned_event src rpath (fst s1) ev" using n2(2) by simp
    then show ?thesis using that(2) by (cases ev) (auto simp: pruned_event_def)
  qed
  have fl: "\<exists>sd err. Md5Failed sd q err \<in> set (n0 @ n1 @ n2)"
    if "q \<noteq> []" "sstat src q = Some e" "digest_fails e (stat (fst s) (rpath @ q))" for q e
    using n1(3)[of q e] that e2[of q] by auto
  have lg: "snd s' = snd s @ (n0 @ n1 @ n2)" using n0(1) n1(1) n2(1) by simp
  show "\<exists>new. snd s' = snd s @ new
           \<and> (\<forall>ev\<in>set new. is_deletion ev \<longrightarrow> (\<exists>p. p \<noteq> [] \<and> (ev = DeletedDir p \<or> ev = DeletedFile p)))
           \<and> (\<forall>q e. q \<noteq> [] \<and> sstat src q = Some e \<and> digest_fails e (stat (fst s) (rpath @ q))
                 \<longrightarrow> (\<exists>sd err. Md5Failed sd q err \<in> set new))"
  proof (intro exI[of _ "n0 @ n1 @ n2"] conjI ballI allI impI)
    show "snd s' = snd s @ n0 @ n1 @ n2" using lg by simp
  next
    fix ev assume "ev \<in> set (n0 @ n1 @ n2)" "is_deletion ev"
    then show "\<exists>p. p \<noteq> [] \<and> (ev = DeletedDir p \<or> ev = DeletedFile p)" by (rule del)
  next
    fix q e assume "q \<noteq> [] \<and> sstat src q = Some e \<and> digest_fails e (stat (fst s) (rpath @ q))"
    then show "\<exists>sd err. Md5Failed sd q err \<in> set (n0 @ n1 @ n2)" using fl[of q e] by simp
  qed
qed


subsection \<open>A pair of files\<close>

lemma sync_item_file_pair:
  assumes "sstat src p = Some (IsFile c r w)" and "stat vol (rpath @ p) = Some (IsFile c' r' w')"
  shows "sync_item h dsz src rpath p (vol, log) =
     (if length c \<noteq> length c' then
        (if r \<and> w' then Inr (store vol (rpath @ p) (File c r w), log @ [UpdatedSize p])
         else Inl (PermissionError, (vol, log)))
      else if md5_of h (IsFile c r w) = md5_of h (IsFile c' r' w') then
        Inr (vol, log @ (if r then [] else [Md5Failed Source p PermissionError])
                      @ (if r' then [] else [Md5Failed Replica p PermissionError]))
      else if r \<and> w' then
        Inr (store vol (rpath @ p) (File c r w),
             log @ (if r then [] else [Md5Failed Source p PermissionError])
                 @ (if r' then [] else [Md5Failed Replica p PermissionError]) @ [UpdatedFile p])
      else
        Inl (PermissionError,
             (vol, log @ (if r then [] else [Md5Failed Source p PermissionError])
                       @ (if r' then [] else [Md5Failed Replica p PermissionError]))))"
proof -
  have s: "slookup src p = Some (File c r w)" using assms(1) by (simp add: sstat_IsFile)
  have v: "lookup vol (rpath @ p) = Some (File c' r' w')" using assms(2) by (simp add: stat_IsFile)
  have nd: "\<not> sis_dir src p" using s by (simp add: sis_dir_def)
  have ex: "exists_path vol (rpath @ p)" using v by (simp add: exists_path_def)
  have cp: "copy2 src p vol (rpath @ p) =
              (if \<not> r \<or> \<not> w' then Inl PermissionError else Inr (store vol (rpath @ p) (File c r w)))"
    using copy2_over_file[OF s v] .
  show ?thesis
  proof (cases "length c = length c'")
    case True
    then show ?thesis using nd ex s v cp
      by (simp add: sync_item_def st_size_def calculate_md5_def recopy_def)
  next
    case False
    then show ?thesis using nd ex s v cp
      by (simp add: sync_item_def st_size_def recopy_def)
  qed
qed

subsection \<open>An error of the loop body ends the walk\<close>

lemma for_each_error:
  "for_each f xs s = Inr s1 \<Longrightarrow> f x s1 = Inl e \<Longrightarrow> for_each f (xs @ x # ys) s = Inl e"
  by (induction xs arbitrary: s) (auto split: sum.splits)

lemma for_each_append:
  "for_each f xs s = Inr s1 \<Longrightarrow> for_each f (xs @ ys) s = for_each f ys s1"
  by (induction xs arbitrary: s) (auto split: sum.splits)

lemma rglob_dirs_error:
  "rglob_dirs k ls body d ds s = Some (Inr s2) \<Longrightarrow> rglob_loop k ls body (d @ [m]) s2 = Some (Inl e)
   \<Longrightarrow> rglob_dirs k ls body d (ds @ m # ds') s = Some (Inl e)"
  by (induction ds arbitrary: s) (auto split: sum.splits option.splits)

lemma calls_error:
  "calls ls body k d s p s1 \<Longrightarrow> body p s1 = Inl e \<Longrightarrow> rglob_loop k ls body d s = Some (Inl e)"
proof (induction rule: calls.induct)
  case (entry_call s d es xs n ys s1 k)
  have "for_each (\<lambda>m. body (d @ [m])) (xs @ n # ys) s = Inl e"
    using for_each_error[OF entry_call(3), of n e ys] entry_call(4) by simp
  then show ?case using entry_call(1,2) by simp
next
  case (descent_call s d es s1 es1 ds m ds' k s2 p s3)
  have "rglob_loop k ls body (d @ [m]) s2 = Some (Inl e)"
    using descent_call(7,8) by simp
  then have "rglob_dirs k ls body d (ds @ m # ds') s1 = Some (Inl e)"
    using rglob_dirs_error[OF descent_call(5)] by simp
  then show ?case using descent_call(1,2,3,4) by simp
qed

section \<open>Change detection in the first loop\<close>

text \<open>
  Claim C3 (counterexample). Three passes over a source file \<^verbatim>\<open>a\<close> whose replica path is a
  file. The sizes differ and the replica file cannot be written: the copy raises
  \<^verbatim>\<open>PermissionError\<close> and nothing is recopied. The two files hold the same bytes and the
  replica file cannot be read: its digest fails, \<open>None\<close> differs from the digest of the
  source, and the file is recopied although size and content are identical. The sizes
  differ and the source file cannot be read: the copy raises \<^verbatim>\<open>PermissionError\<close>.
\<close>

theorem change_detection_counterexample:
  "sync_directories 3 md5 ext4_dir_size
     (Some (Dir [(''a'', File [1, 2] True True)])) [''replica'']
     (Dir [(''replica'', Dir [(''a'', File [3] True False)])], [])
   = Some (Inl (PermissionError, Dir [(''replica'', Dir [(''a'', File [3] True False)])], []))
   \<and> sync_directories 3 md5 ext4_dir_size
     (Some (Dir [(''a'', File [1] True True)])) [''replica'']
     (Dir [(''replica'', Dir [(''a'', File [1] False True)])], [])
   = Some (Inr (Dir [(''replica'', Dir [(''a'', File [1] True True)])],
                [Md5Failed Replica [''a''] PermissionError, UpdatedFile [''a'']]))
   \<and> sync_directories 3 md5 ext4_dir_size
     (Some (Dir [(''a'', File [1, 2] False True)])) [''replica'']
     (Dir [(''replica'', Dir [(''a'', File [3] True True)])], [])
   = Some (Inl (PermissionError, Dir [(''replica'', Dir [(''a'', File [3] True True)])], []))"
  by code_simp

text \<open>
  Claim C3 (amended). For a source file that can be read whose replica path is a file that
  can be written: when the sizes differ the replica file is replaced by the source file
  and no digest is computed, so the outcome does not depend on the digest function nor on
  whether the replica file can be read; when the sizes are equal and the replica file can
  be read, both digests are computed and the file is replaced exactly when they differ;
  with equal size and equal digests the file system and the log are left as they are.
\<close>

theorem sync_item_change_detection:
  assumes "sstat src p = Some (IsFile c r w)"
    and "stat vol (rpath @ p) = Some (IsFile c' r' w')"
    and "r" and "w'" and "length c = length c' \<longrightarrow> r'"
  shows "sync_item h dsz src rpath p (vol, log) =
           (if length c \<noteq> length c'
            then Inr (store vol (rpath @ p) (File c r w), log @ [UpdatedSize p])
            else if h c \<noteq> h c'
            then Inr (store vol (rpath @ p) (File c r w), log @ [UpdatedFile p])
            else Inr (vol, log))"
proof -
  have s: "slookup src p = Some (File c r w)" using assms(1) by (simp add: sstat_IsFile)
  have v: "lookup vol (rpath @ p) = Some (File c' r' w')" using assms(2) by (simp add: stat_IsFile)
  have nd: "\<not> sis_dir src p" using s by (simp add: sis_dir_def)
  have ex: "exists_path vol (rpath @ p)" using v by (simp add: exists_path_def)
  have cp: "copy2 src p vol (rpath @ p) = Inr (store vol (rpath @ p) (File c r w))"
    using copy2_over_file[OF s v] assms(3,4) by simp
  show ?thesis
  proof (cases "length c = length c'")
    case True
    then have "r'" using assms(5) by simp
    then show ?thesis using True nd ex s v cp assms(3)
      by (simp add: sync_item_def st_size_def calculate_md5_def recopy_def)
  next
    case False
    then show ?thesis using nd ex s v cp
      by (simp add: sync_item_def st_size_def recopy_def)
  qed
qed

theorem sync_item_change_detection_witness:
  "sync_item id (\<lambda>es. 4096) (Some (Dir [(''a'', File [1, 2] True True)])) [''r''] [''a'']
     (Dir [(''r'', Dir [(''a'', File [3] False True)])], [])
   = Inr (Dir [(''r'', Dir [(''a'', File [1, 2] True True)])], [UpdatedSize [''a'']])"
  using sync_item_change_detection[of "Some (Dir [(''a'', File [1, 2] True True)])" "[''a'']"
      "[1, 2]" True True "Dir [(''r'', Dir [(''a'', File [3] False True)])]" "[''r'']" "[3]" False True
      id "\<lambda>es. 4096" "[]"]
  by (simp add: sstat_def slookup_def stat_def)

section \<open>Startup checks and the replica root\<close>



section \<open>Failures\<close>

text \<open>
  Claim C4 (counterexample). The source file \<^verbatim>\<open>a\<close> cannot be read and the replica has a file
  \<^verbatim>\<open>a\<close> of the same size: the digest of the source fails and is logged, \<open>None\<close> differs from
  the replica's digest, the copy is attempted and raises \<^verbatim>\<open>PermissionError\<close>. The pass ends
  there; the source file \<^verbatim>\<open>b\<close>, next in the listing, is never copied.
\<close>

theorem digest_failure_counterexample:
  "sync_directories 3 md5 ext4_dir_size
     (Some (Dir [(''a'', File [1] False True), (''b'', File [3] True True)])) [''replica'']
     (Dir [(''replica'', Dir [(''a'', File [2] True True)])], [])
   = Some (Inl (PermissionError, Dir [(''replica'', Dir [(''a'', File [2] True True)])],
                [Md5Failed Source [''a''] PermissionError]))"
  by code_simp

text \<open>
  Claim C4 (amended). For a source file and a replica file of the same size of which at
  least one cannot be read: every digest computation that fails is logged, the one of the
  source first. When both fail, the two results are equal (\<open>None\<close>): the replica file is
  left untouched and the loop goes on. When only one fails, the results differ and the copy
  is attempted: if the source file can be read and the replica file written, the replica
  file is replaced by the source file and the loop goes on; otherwise the copy raises
  \<^verbatim>\<open>PermissionError\<close> out of the loop, with the file system as it was.
\<close>

theorem sync_item_digest_failure:
  assumes "sstat src p = Some (IsFile c r w)"
    and "stat vol (rpath @ p) = Some (IsFile c' r' w')"
    and "length c = length c'"
    and "\<not> r \<or> \<not> r'"
  shows "sync_item h dsz src rpath p (vol, log) =
           (if \<not> r \<and> \<not> r'
            then Inr (vol, log @ [Md5Failed Source p PermissionError,
                                  Md5Failed Replica p PermissionError])
            else if r \<and> w'
            then Inr (store vol (rpath @ p) (File c r w),
                      log @ [Md5Failed Replica p PermissionError, UpdatedFile p])
            else Inl (PermissionError,
                      (vol, log @ [if r then Md5Failed Replica p PermissionError
                                   else Md5Failed Source p PermissionError])))"
  using sync_item_file_pair[OF assms(1,2), of h dsz log] assms(3,4) by auto

theorem sync_item_digest_failure_witness:
  "sync_item md5 ext4_dir_size (Some (Dir [(''a'', File [1] True True)])) [''replica''] [''a'']
     (Dir [(''replica'', Dir [(''a'', File [2] False False)])], [])
   = Inl (PermissionError,
          (Dir [(''replica'', Dir [(''a'', File [2] False False)])],
           [Md5Failed Replica [''a''] PermissionError]))"
  using sync_item_digest_failure[of "Some (Dir [(''a'', File [1] True True)])" "[''a'']"
      "[1]" True True "Dir [(''replica'', Dir [(''a'', File [2] False False)])]" "[''replica'']"
      "[2]" False False md5 ext4_dir_size "[]"]
  by (simp add: sstat_def slookup_def stat_def)

text \<open>
  Claim C5 (counterexample). The source file \<^verbatim>\<open>a\<close> cannot be read and the replica does not
  have it: the copy raises \<^verbatim>\<open>PermissionError\<close> out of \<^verbatim>\<open>sync_directories\<close>. The readable file
  \<^verbatim>\<open>b\<close> is not copied and the stale replica file \<^verbatim>\<open>old\<close> is not removed.
\<close>

theorem unreadable_file_counterexample:
  "sync_directories 3 md5 ext4_dir_size
     (Some (Dir [(''a'', File [1] False True), (''b'', File [3] True True)])) [''replica'']
     (Dir [(''replica'', Dir [(''old'', File [9] True True)])], [])
   = Some (Inl (PermissionError, Dir [(''replica'', Dir [(''old'', File [9] True True)])], []))"
  by code_simp

text \<open>
  Claim C5 (amended). \<^verbatim>\<open>sync_directories\<close> handles no error of its own: a failing read is
  caught only inside \<^verbatim>\<open>calculate_md5\<close>. Whenever the body of the first loop raises an error
  for an item of the source tree, at any position of a listing and at any depth (a copy
  of a file that cannot be read or onto a file that cannot be written, a directory to be
  made below a file), the pass ends there: \<^verbatim>\<open>sync_directories\<close> returns that error, with the
  file system as it was when the body was called, so that no later item is reconciled and
  the second loop does not run.
\<close>

theorem first_loop_error_ends_pass:
  assumes "ensure_replica rpath s = Inr s0" and "sis_dir src []"
    and "calls (list_source src) (sync_item h dsz src rpath) fuel [] s0 p s1"
    and "sync_item h dsz src rpath p s1 = Inl (e, s2)"
  shows "sync_directories fuel h dsz src rpath s = Some (Inl (e, s2)) \<and> fst s2 = fst s1"
proof -
  have "rglob_loop fuel (list_source src) (sync_item h dsz src rpath) [] s0 = Some (Inl (e, s2))"
    using calls_error[OF assms(3,4)] .
  then have "propagate fuel h dsz src rpath s0 = Some (Inl (e, s2))"
    using assms(2) by (simp add: propagate_def)
  then have "sync_directories fuel h dsz src rpath s = Some (Inl (e, s2))"
    using assms(1) by (simp add: sync_directories_def)
  moreover have "fst s2 = fst s1"
    using assms(4)
    by (auto simp: sync_item_def recopy_def split: if_splits sum.splits prod.splits)
  ultimately show ?thesis by simp
qed

theorem first_loop_error_ends_pass_witness:
  "sync_directories (Suc (Suc 0)) md5 ext4_dir_size
     (Some (Dir [(''d'', Dir [(''ok'', File [7] True True), (''a'', File [1, 2] True True),
                              (''z'', File [5] True True)])])) [''replica'']
     (Dir [(''replica'', Dir [(''d'', Dir [(''ok'', File [7] True True),
                                           (''a'', File [3] True False)])])], [])
   = Some (Inl (PermissionError,
                (Dir [(''replica'', Dir [(''d'', Dir [(''ok'', File [7] True True),
                                                      (''a'', File [3] True False)])])], [])))"
proof -
  let ?src = "Some (Dir [(''d'', Dir [(''ok'', File [7] True True), (''a'', File [1, 2] True True),
                              (''z'', File [5] True True)])])"
  let ?vol = "Dir [(''replica'', Dir [(''d'', Dir [(''ok'', File [7] True True),
                                           (''a'', File [3] True False)])])]"
  let ?s = "(?vol, [])"
  let ?ls = "list_source ?src"
  let ?body = "sync_item md5 ext4_dir_size ?src [''replica'']"
  have e: "ensure_replica [''replica''] ?s = Inr ?s"
    by (simp add: ensure_replica_def exists_path_def)
  have sd: "sis_dir ?src []" by (simp add: sis_dir_def slookup_def)
  have l0: "?ls ?s [] = Inr [(''d'', True)]" by (simp add: list_source_def slookup_def scandir_def)
  have l1: "?ls ?s [''d''] = Inr [(''ok'', False), (''a'', False), (''z'', False)]"
    by (simp add: list_source_def slookup_def scandir_def)
  have b0: "?body [''d''] ?s = Inr ?s"
    by (simp add: sync_item_def sis_dir_def slookup_def exists_path_def)
  have b1: "?body [''d'', ''ok''] ?s = Inr ?s"
    by (simp add: sync_item_def sis_dir_def slookup_def exists_path_def st_size_def
        calculate_md5_def)
  have b2: "?body [''d'', ''a''] ?s = Inl (PermissionError, ?s)"
    by (simp add: sync_item_def sis_dir_def slookup_def exists_path_def st_size_def
        recopy_def copy2_def copy_target_def is_dir_def open_write_def)
  have c1: "calls ?ls ?body (Suc 0) ([] @ [''d'']) ?s ([''d''] @ [''a'']) ?s"
    using calls.entry_call[of ?ls ?s "[''d'']" "[(''ok'', False), (''a'', False), (''z'', False)]"
        "[''ok'']" "''a''" "[''z'']" ?body ?s 0] l1 b1
    by simp
  have c0: "calls ?ls ?body (Suc (Suc 0)) [] ?s ([''d''] @ [''a'']) ?s"
    using calls.descent_call[of ?ls ?s "[]" "[(''d'', True)]" ?body ?s "[(''d'', True)]"
        "[]" "''d''" "[]" "Suc 0" ?s "[''d''] @ [''a'']" ?s] l0 b0 c1
    by simp
  have b2': "?body ([''d''] @ [''a'']) ?s = Inl (PermissionError, ?s)" using b2 by simp
  show ?thesis
    using first_loop_error_ends_pass[OF e sd c0 b2'] by simp
qed

section \<open>The loop of \<^verbatim>\<open>main\<close>\<close>

lemma run_loop_append:
  "run_loop fuel h dsz rpath pre s = Some (StillRunning, s1) \<Longrightarrow>
   run_loop fuel h dsz rpath (pre @ post) s = run_loop fuel h dsz rpath post s1"
proof (induction pre arbitrary: s)
  case Nil
  then show ?case by simp
next
  case (Cons x pre)
  obtain src intr where x: "x = (src, intr)" by (cases x)
  show ?case
  proof (cases "sync_directories fuel h dsz src rpath s")
    case None
    then show ?thesis using Cons(2) x by simp
  next
    case (Some r)
    show ?thesis
    proof (cases r)
      case (Inl a)
      then show ?thesis using Cons(2) x Some by (cases a) simp
    next
      case (Inr s')
      then have ni: "\<not> intr" using Cons(2) x Some by (auto split: if_splits)
      then have "run_loop fuel h dsz rpath pre (fst s', snd s' @ [Complete]) = Some (StillRunning, s1)"
        using Cons(2) x Some Inr by simp
      then show ?thesis using Cons(1) x Some Inr ni by simp
    qed
  qed
qed

text \<open>
  Claim C8 (counterexample). The first pass raises \<^verbatim>\<open>PermissionError\<close> (the source file
  cannot be read). \<^verbatim>\<open>main\<close> logs the error and returns: the second pass of the schedule,
  which would copy the file \<^verbatim>\<open>b\<close>, never runs.
\<close>

theorem main_error_counterexample:
  "main 3 md5 ext4_dir_size [''replica''] 60
     [(Some (Dir [(''a'', File [1] False True)]), False),
      (Some (Dir [(''b'', File [3] True True)]), False)]
     (Dir [(''replica'', Dir [])], [])
   = Some (StoppedByError PermissionError,
           (Dir [(''replica'', Dir [])], [Starting, Interval 60, SyncFailed PermissionError]))"
  by code_simp

text \<open>
  Claim C8 (amended). After any number of passes that complete without an interrupt: an
  error raised by the next pass is caught by \<^verbatim>\<open>main\<close> and logged, and \<^verbatim>\<open>main\<close> returns, so
  that the loop ends and no later pass of the schedule runs; the file system stays as the
  failed pass left it. An operator interrupt during the sleep after a completed pass ends
  the loop as well, with its own log line.
\<close>

theorem run_loop_stops:
  assumes "run_loop fuel h dsz rpath pre s = Some (StillRunning, s1)"
  shows "(sync_directories fuel h dsz src rpath s1 = Some (Inl (e, s2)) \<longrightarrow>
            run_loop fuel h dsz rpath (pre @ (src, intr) # rest) s
              = Some (StoppedByError e, (fst s2, snd s2 @ [SyncFailed e])))
       \<and> (sync_directories fuel h dsz src rpath s1 = Some (Inr s2) \<longrightarrow>
            run_loop fuel h dsz rpath (pre @ (src, True) # rest) s
              = Some (StoppedByUser, (fst s2, snd s2 @ [Complete, Interrupted])))"
  using run_loop_append[OF assms] by simp

theorem run_loop_stops_witness:
  "run_loop 3 md5 ext4_dir_size [''replica'']
     ([] @ (Some (Dir [(''a'', File [1] False True)]), False) # [(Some (Dir []), False)])
     (Dir [(''replica'', Dir [])], [])
   = Some (StoppedByError PermissionError, (Dir [(''replica'', Dir [])], [SyncFailed PermissionError]))
   \<and> run_loop 3 md5 ext4_dir_size [''replica'']
     ([] @ (Some (Dir []), True) # [(Some (Dir []), False)])
     (Dir [(''replica'', Dir [])], [])
   = Some (StoppedByUser, (Dir [(''replica'', Dir [])], [Complete, Interrupted]))"
proof -
  let ?s = "(Dir [(''replica'', Dir [])], [])"
  have p: "run_loop 3 md5 ext4_dir_size [''replica''] [] ?s = Some (StillRunning, ?s)" by simp
  have a: "sync_directories 3 md5 ext4_dir_size (Some (Dir [(''a'', File [1] False True)]))
             [''replica''] ?s = Some (Inl (PermissionError, ?s))"
    by code_simp
  have b: "sync_directories 3 md5 ext4_dir_size (Some (Dir [])) [''replica''] ?s = Some (Inr ?s)"
    by code_simp
  show ?thesis
    using run_loop_stops[OF p, of "Some (Dir [(''a'', File [1] False True)])" PermissionError ?s
            False "[(Some (Dir []), False)]"]
          run_loop_stops[OF p, of "Some (Dir [])" PermissionError ?s False "[(Some (Dir []), False)]"]
          a b
    by simp
qed

section \<open>The second loop\<close>

text \<open>
  Claim C7. On a well-formed replica volume, with fuel for its height, the second loop
  returns without an error. Afterwards a path is gone exactly when it lay under the replica
  root and the source has nothing at its relative path (with a directory, everything below
  it); every other path is as before. Each event the loop logs is sound: it names a path
  missing from the source whose parent the source has, as \<open>DeletedDir\<close> when the replica had
  a directory there (\<^verbatim>\<open>rmtree\<close>) and as \<open>DeletedFile\<close> when it had a file (\<^verbatim>\<open>unlink\<close>). So no
  path below a directory that was removed is visited again, and no removal fails on a path
  that went with its ancestor.
\<close>

theorem prune_removes_stale:
  assumes "wf_node vol" and "height vol \<le> fuel"
  shows "\<exists>vol' new. prune fuel src rpath (vol, log) = Some (Inr (vol', log @ new))
           \<and> (\<forall>q. stat vol' q = (if stale src rpath [] q then None else stat vol q))
           \<and> wf_node vol'
           \<and> (\<forall>ev\<in>set new. pruned_event src rpath vol ev)"
proof -
  from prune_total[of "(vol, log)" fuel src rpath] assms obtain s' where
    r: "prune fuel src rpath (vol, log) = Some (Inr s')" and
    p: "prune_post src rpath (stale src rpath []) (vol, log) s'"
    by auto
  from p obtain new where n: "snd s' = log @ new" "\<forall>ev\<in>set new. pruned_event src rpath vol ev"
    by (auto simp: prune_post_def)
  have "s' = (fst s', log @ new)" using n(1) by (cases s') simp
  then have "prune fuel src rpath (vol, log) = Some (Inr (fst s', log @ new))" using r by simp
  moreover have "\<forall>q. stat (fst s') q = (if stale src rpath [] q then None else stat vol q)"
    using p by (simp add: prune_post_def)
  moreover have "wf_node (fst s')" using p by (simp add: prune_post_def)
  ultimately show ?thesis using n(2) by blast
qed

theorem prune_removes_stale_witness:
  "\<exists>vol' new.
     prune 4 (Some (Dir [(''keep'', File [1] True True)])) [''replica'']
       (Dir [(''replica'', Dir [(''keep'', File [1] True True),
                               (''old'', Dir [(''x'', File [2] True True), (''y'', Dir [])]),
                               (''gone'', File [3] True True)])], [])
       = Some (Inr (vol', [] @ new))
     \<and> stat vol' [''replica'', ''old'', ''x''] = None
     \<and> stat vol' [''replica'', ''gone''] = None
     \<and> stat vol' [''replica'', ''keep''] = Some (IsFile [1] True True)"
proof -
  let ?src = "Some (Dir [(''keep'', File [1] True True)])"
  let ?vol = "Dir [(''replica'', Dir [(''keep'', File [1] True True),
                               (''old'', Dir [(''x'', File [2] True True), (''y'', Dir [])]),
                               (''gone'', File [3] True True)])]"
  have h1: "wf_node ?vol" by simp
  have h2: "height ?vol \<le> 4" by simp
  from prune_removes_stale[OF h1 h2, of ?src "[''replica'']" "[]"] obtain vol' new where
    a: "prune 4 ?src [''replica''] (?vol, []) = Some (Inr (vol', [] @ new))" and
    b: "\<And>q. stat vol' q = (if stale ?src [''replica''] [] q then None else stat ?vol q)"
    by blast
  have s1: "stale ?src [''replica''] [] [''replica'', ''old'', ''x'']"
    unfolding stale_def by (rule exI[of _ "[''old'', ''x'']"]) (simp add: sstat_def slookup_def)
  have s2: "stale ?src [''replica''] [] [''replica'', ''gone'']"
    unfolding stale_def by (rule exI[of _ "[''gone'']"]) (simp add: sstat_def slookup_def)
  have s3: "\<not> stale ?src [''replica''] [] [''replica'', ''keep'']"
    by (auto simp: stale_def sstat_def slookup_def)
  have "stat vol' [''replica'', ''old'', ''x''] = None" using b s1 by simp
  moreover have "stat vol' [''replica'', ''gone''] = None" using b s2 by simp
  moreover have "stat vol' [''replica'', ''keep''] = Some (IsFile [1] True True)"
    using b[of "[''replica'', ''keep'']"] s3 by (simp add: stat_def)
  ultimately show ?thesis using a by blast
qed

section \<open>A whole pass\<close>




text \<open>
  Claim C6 (counterexample). The source has the file \<^verbatim>\<open>a\<close> where the replica has the
  directory \<^verbatim>\<open>a\<close>, which holds a file \<^verbatim>\<open>x\<close>. The sizes differ, so \<^verbatim>\<open>copy2\<close> is called with a
  directory as destination and copies the source file into it, as \<^verbatim>\<open>a/a\<close>; the second loop
  then removes \<^verbatim>\<open>a/x\<close> and \<^verbatim>\<open>a/a\<close>, whose paths the source does not have. The replica keeps
  the directory \<^verbatim>\<open>a\<close>: the conflicting entry is not removed and the file is not
  materialized.
\<close>

theorem type_mismatch_counterexample:
  "sync_directories 3 md5 ext4_dir_size (Some (Dir [(''a'', File [1] True True)])) [''replica'']
     (Dir [(''replica'', Dir [(''a'', Dir [(''x'', File [2] True True)])])], [])
   = Some (Inr (Dir [(''replica'', Dir [(''a'', Dir [])])],
                [UpdatedSize [''a''], DeletedFile [''a'', ''x''], DeletedFile [''a'', ''a'']]))"
  by code_simp

text \<open>
  Claim C6 (amended). For every relative path where the source and replica entry types
  disagree, a pass that completes (on a well-formed replica volume) leaves the replica's
  conflicting entry in place, with its type: where the source has a file and the replica a
  directory, the replica still has a directory there, and nothing below it, after the pass;
  where the source has a directory and the replica a file, the replica still has that same
  file.
\<close>

theorem type_mismatch_persists:
  assumes "sync_directories fuel h dsz src rpath (vol, log) = Some (Inr (vol', log'))"
    and "wf_node vol" and "p \<noteq> []"
    and "type_mismatch (sstat src p) (stat vol (rpath @ p))"
  shows "stat vol' (rpath @ p) = stat vol (rpath @ p)
       \<and> type_mismatch (sstat src p) (stat vol' (rpath @ p))
       \<and> (stat vol (rpath @ p) = Some IsDir \<longrightarrow> (\<forall>r. r \<noteq> [] \<longrightarrow> stat vol' (rpath @ p @ r) = None))"
proof -
  have w: "wf_node (fst (vol, log))" using assms(2) by simp
  note st = pass_returns(2)[OF assms(1) w, simplified]
  from assms(4) consider
      (fd) c r w where "sstat src p = Some (IsFile c r w)" "stat vol (rpath @ p) = Some IsDir"
    | (df) c r w where "sstat src p = Some IsDir" "stat vol (rpath @ p) = Some (IsFile c r w)"
    by (cases "(sstat src p, stat vol (rpath @ p))" rule: type_mismatch.cases) auto
  then show ?thesis
  proof cases
    case fd
    have a: "stat vol' (rpath @ p) = Some IsDir" using st[OF assms(3)] fd by simp
    have b: "stat vol' (rpath @ p @ r) = None" if "r \<noteq> []" for r
    proof -
      have "sstat src (p @ r) = None"
      proof (rule ccontr)
        assume "sstat src (p @ r) \<noteq> None"
        then have "sstat src p = Some IsDir" using that by (rule sstat_below_dir)
        then show False using fd(1) by simp
      qed
      then show ?thesis using st[of "p @ r"] that by simp
    qed
    show ?thesis using a b fd by simp
  next
    case df
    have "stat vol' (rpath @ p) = Some (IsFile c r w)" using st[OF assms(3)] df by simp
    then show ?thesis using df by simp
  qed
qed

theorem type_mismatch_persists_witness:
  "stat (Dir [(''replica'', Dir [(''a'', Dir [])])]) ([''replica''] @ [''a''])
     = stat (Dir [(''replica'', Dir [(''a'', Dir [(''x'', File [2] True True)])])]) ([''replica''] @ [''a''])
   \<and> stat (Dir [(''replica'', Dir [(''a'', Dir [])])]) ([''replica''] @ [''a''] @ [''x'']) = None"
proof -
  let ?src = "Some (Dir [(''a'', File [1] True True)])"
  let ?vol = "Dir [(''replica'', Dir [(''a'', Dir [(''x'', File [2] True True)])])]"
  have r: "sync_directories 3 md5 ext4_dir_size ?src [''replica''] (?vol, [])
           = Some (Inr (Dir [(''replica'', Dir [(''a'', Dir [])])],
                [UpdatedSize [''a''], DeletedFile [''a'', ''x''], DeletedFile [''a'', ''a'']]))"
    by code_simp
  have w: "wf_node ?vol" by simp
  have n: "[''a''] \<noteq> ([]::path)" by simp
  have m: "type_mismatch (sstat ?src [''a'']) (stat ?vol ([''replica''] @ [''a'']))"
    by (simp add: sstat_def slookup_def stat_def)
  have d: "stat ?vol ([''replica''] @ [''a'']) = Some IsDir" by (simp add: stat_def)
  have x: "[''x''] \<noteq> ([]::path)" by simp
  from type_mismatch_persists[OF r w n m] d x show ?thesis by blast
qed

subsection \<open>The digests of the two colliding files\<close>

text \<open>The MD5 digest of each of the two files, computed block by block: the two padded
  messages as 32-bit words, the compression of each block from the state the block before
  it left, and the three blocks chained.\<close>

lemma le32_pad_collision_a:
  "le32 (md5_pad collision_a) =
    [0x02dd31d1, 0xc4eee6c5, 0x069a3d69, 0x5cf9af98, 0x87b5ca2f, 0xab7e4612, 0x3e580440,
     0x897ffbb8, 0x0634ad55, 0x02b3f409, 0x8388e483, 0x5a417125, 0xe8255108, 0x9fc9cdf7,
     0xf2bd1dd9, 0x5b3c3780, 0x313e82d8, 0x5b8f3456, 0xd4ac6dae, 0xc619c936, 0xb4e253dd,
     0xfd03da87, 0x06633902, 0xa0cd48d2, 0x42339fe9, 0xe87e570f, 0x70b654ce, 0x1e0da880,
     0xbc2198c6, 0x9383a8b6, 0x2b65f996, 0x702af76f, 0x00000080, 0x00000000, 0x00000000,
     0x00000000, 0x00000000, 0x00000000, 0x00000000, 0x00000000, 0x00000000, 0x00000000,
     0x00000000, 0x00000000, 0x00000000, 0x00000000, 0x00000400, 0x00000000]"
  by code_simp

lemma md5_block_a1:
  "md5_blocks (Suc 0)
    [0x02dd31d1, 0xc4eee6c5, 0x069a3d69, 0x5cf9af98, 0x87b5ca2f, 0xab7e4612, 0x3e580440,
     0x897ffbb8, 0x0634ad55, 0x02b3f409, 0x8388e483, 0x5a417125, 0xe8255108, 0x9fc9cdf7,
     0xf2bd1dd9, 0x5b3c3780]
    (0x67452301, 0xefcdab89, 0x98badcfe, 0x10325476)
   = (0x52589324, 0x3093d7ca, 0x2a06dc54, 0x20c5be06)"
  by code_simp

lemma md5_block_a2:
  "md5_blocks (Suc 0)
    [0x313e82d8, 0x5b8f3456, 0xd4ac6dae, 0xc619c936, 0xb4e253dd, 0xfd03da87, 0x06633902,
     0xa0cd48d2, 0x42339fe9, 0xe87e570f, 0x70b654ce, 0x1e0da880, 0xbc2198c6, 0x9383a8b6,
     0x2b65f996, 0x702af76f]
    (0x52589324, 0x3093d7ca, 0x2a06dc54, 0x20c5be06)
   = (0x8d5e7019, 0x61804e08, 0x715d6b58, 0x6324c015)"
  by code_simp

lemma md5_block_tail:
  "md5_blocks (Suc 0)
    [0x00000080, 0x00000000, 0x00000000, 0x00000000, 0x00000000, 0x00000000, 0x00000000,
     0x00000000, 0x00000000, 0x00000000, 0x00000000, 0x00000000, 0x00000000, 0x00000000,
     0x00000400, 0x00000000]
    (0x8d5e7019, 0x61804e08, 0x715d6b58, 0x6324c015)
   = (0x25400579, 0xa2b15f25, 0x22c44b6e, 0xb44ef5ae)"
  by code_simp

lemma le32_pad_collision_b:
  "le32 (md5_pad collision_b) =
    [0x02dd31d1, 0xc4eee6c5, 0x069a3d69, 0x5cf9af98, 0x07b5ca2f, 0xab7e4612, 0x3e580440,
     0x897ffbb8, 0x0634ad55, 0x02b3f409, 0x8388e483, 0x5a41f125, 0xe8255108, 0x9fc9cdf7,
     0x72bd1dd9, 0x5b3c3780, 0x313e82d8, 0x5b8f3456, 0xd4ac6dae, 0xc619c936, 0x34e253dd,
     0xfd03da87, 0x06633902, 0xa0cd48d2, 0x42339fe9, 0xe87e570f, 0x70b654ce, 0x1e0d2880,
     0xbc2198c6, 0x9383a8b6, 0xab65f996, 0x702af76f, 0x00000080, 0x00000000, 0x00000000,
     0x00000000, 0x00000000, 0x00000000, 0x00000000, 0x00000000, 0x00000000, 0x00000000,
     0x00000000, 0x00000000, 0x00000000, 0x00000000, 0x00000400, 0x00000000]"
  by code_simp

lemma md5_block_b1:
  "md5_blocks (Suc 0)
    [0x02dd31d1, 0xc4eee6c5, 0x069a3d69, 0x5cf9af98, 0x07b5ca2f, 0xab7e4612, 0x3e580440,
     0x897ffbb8, 0x0634ad55, 0x02b3f409, 0x8388e483, 0x5a41f125, 0xe8255108, 0x9fc9cdf7,
     0x72bd1dd9, 0x5b3c3780]
    (0x67452301, 0xefcdab89, 0x98badcfe, 0x10325476)
   = (0xd2589324, 0xb293d7ca, 0xac06dc54, 0xa2c5be06)"
  by code_simp

lemma md5_block_b2:
  "md5_blocks (Suc 0)
    [0x313e82d8, 0x5b8f3456, 0xd4ac6dae, 0xc619c936, 0x34e253dd, 0xfd03da87, 0x06633902,
     0xa0cd48d2, 0x42339fe9, 0xe87e570f, 0x70b654ce, 0x1e0d2880, 0xbc2198c6, 0x9383a8b6,
     0xab65f996, 0x702af76f]
    (0xd2589324, 0xb293d7ca, 0xac06dc54, 0xa2c5be06)
   = (0x8d5e7019, 0x61804e08, 0x715d6b58, 0x6324c015)"
  by code_simp

lemma md5_blocks_step:
  "md5_blocks (Suc n) ws st = md5_blocks n (drop 16 ws) (md5_blocks (Suc 0) (take 16 ws) st)"
  by (cases st) (simp split: prod.splits)

lemma md5_three_blocks:
  assumes "le32 (md5_pad bs) = ws" and "length ws = 48"
  shows "md5 bs = md5_blocks (Suc 0) (take 16 (drop 32 ws))
           (md5_blocks (Suc 0) (take 16 (drop 16 ws))
             (md5_blocks (Suc 0) (take 16 ws)
               (0x67452301, 0xefcdab89, 0x98badcfe, 0x10325476)))"
proof -
  have "length ws div 16 = Suc (Suc (Suc 0))" using assms(2) by simp
  then have "md5 bs = md5_blocks (Suc (Suc (Suc 0))) ws
                        (0x67452301, 0xefcdab89, 0x98badcfe, 0x10325476)"
    using assms(1) by (simp add: md5_def)
  also have "\<dots> = md5_blocks 0 (drop 16 (drop 16 (drop 16 ws)))
           (md5_blocks (Suc 0) (take 16 (drop 16 (drop 16 ws)))
             (md5_blocks (Suc 0) (take 16 (drop 16 ws))
               (md5_blocks (Suc 0) (take 16 ws)
                 (0x67452301, 0xefcdab89, 0x98badcfe, 0x10325476))))"
    by (simp only: md5_blocks_step[of "Suc (Suc 0)"] md5_blocks_step[of "Suc 0" "drop 16 ws"]
          md5_blocks_step[of 0 "drop 16 (drop 16 ws)"])
  finally show ?thesis
    by (cases "md5_blocks (Suc 0) (take 16 (drop 16 (drop 16 ws)))
             (md5_blocks (Suc 0) (take 16 (drop 16 ws))
               (md5_blocks (Suc 0) (take 16 ws)
                 (0x67452301, 0xefcdab89, 0x98badcfe, 0x10325476)))") simp
qed

lemma md5_collision_a:
  "md5 collision_a = (0x25400579, 0xa2b15f25, 0x22c44b6e, 0xb44ef5ae)"
  by (simp add: md5_three_blocks[OF le32_pad_collision_a] md5_block_a1 md5_block_a2 md5_block_tail
        del: md5_blocks.simps)

lemma md5_collision_b:
  "md5 collision_b = (0x25400579, 0xa2b15f25, 0x22c44b6e, 0xb44ef5ae)"
  by (simp add: md5_three_blocks[OF le32_pad_collision_b] md5_block_b1 md5_block_b2 md5_block_tail
        del: md5_blocks.simps)

lemma collision_differ: "collision_a \<noteq> collision_b"
  by (simp add: collision_a_def collision_b_def)

lemma collision_length: "length collision_a = length collision_b"
  by (simp add: collision_a_def collision_b_def)

text \<open>A pass over one source file whose replica file has the same size and the same
  digest: nothing is done and nothing is logged.\<close>

lemma pass_same_digest:
  assumes "length a = length b" and "h a = h b"
  shows "sync_directories 3 h dsz (Some (Dir [(''a'', File a True True)])) [''replica'']
           (Dir [(''replica'', Dir [(''a'', File b True True)])], [])
         = Some (Inr (Dir [(''replica'', Dir [(''a'', File b True True)])], []))"
  using assms
  by (simp add: numeral_3_eq_3 sync_directories_def ensure_replica_def exists_path_def
        propagate_def sis_dir_def slookup_def list_source_def scandir_def sync_item_def
        st_size_def calculate_md5_def prune_def is_dir_def list_replica_def prune_item_def
        sexists_def)

text \<open>
  Claim C1 (counterexample). The source file \<^verbatim>\<open>a\<close> and the replica file \<^verbatim>\<open>a\<close> hold two
  different byte strings of 128 bytes with the same MD5 digest. Sizes and digests agree, so
  the pass leaves the replica file as it is and returns normally; no digest failed (the log
  is empty) and no types disagree (both are regular files). After the pass the replica file
  does not have the content of the source file.
\<close>

theorem mirror_counterexample:
  "sync_directories 3 md5 ext4_dir_size (Some (Dir [(''a'', File collision_a True True)]))
     [''replica''] (Dir [(''replica'', Dir [(''a'', File collision_b True True)])], [])
   = Some (Inr (Dir [(''replica'', Dir [(''a'', File collision_b True True)])], []))
   \<and> sstat (Some (Dir [(''a'', File collision_a True True)])) [''a'']
       = Some (IsFile collision_a True True)
   \<and> stat (Dir [(''replica'', Dir [(''a'', File collision_b True True)])]) [''replica'', ''a'']
       = Some (IsFile collision_b True True)
   \<and> collision_a \<noteq> collision_b"
proof -
  have "md5 collision_a = md5 collision_b"
    by (simp only: md5_collision_a md5_collision_b)
  from pass_same_digest[OF collision_length this, of ext4_dir_size] collision_differ
  show ?thesis by (simp add: sstat_def slookup_def stat_def)
qed

text \<open>
  Claim C1 (amended). After a pass that returns without error on a well-formed replica
  volume, with no failed digest logged and no relative path where source and replica
  disagree in type: nothing is left under the replica root at a relative path the source
  does not have; where the source has a directory the replica has a directory; where the
  source has a file the replica has a file of the same size and the same digest, and of
  the same content unless it is the file the replica already had there (then left
  untouched because size and digest agreed).
\<close>

theorem pass_mirrors_source:
  assumes "sync_directories fuel h dsz src rpath (vol, log) = Some (Inr (vol', log @ new))"
    and "wf_node vol"
    and "\<forall>ev\<in>set new. \<not> is_failure ev"
    and "\<forall>q. \<not> type_mismatch (sstat src q) (stat vol (rpath @ q))"
    and "q \<noteq> []"
  shows "(sstat src q = None \<longrightarrow> stat vol' (rpath @ q) = None)
       \<and> (sstat src q = Some IsDir \<longrightarrow> stat vol' (rpath @ q) = Some IsDir)
       \<and> (\<forall>c r w. sstat src q = Some (IsFile c r w) \<longrightarrow>
            (\<exists>c' r' w'. stat vol' (rpath @ q) = Some (IsFile c' r' w')
               \<and> length c' = length c \<and> h c' = h c
               \<and> (c' = c \<or> stat vol (rpath @ q) = Some (IsFile c' r' w'))))"
proof -
  have w: "wf_node (fst (vol, log))" using assms(2) by simp
  note st = pass_returns(2)[OF assms(1) w assms(5), simplified]
  from pass_returns(4)[OF assms(1) w] obtain new' where
    n: "log @ new = log @ new'" and
    f: "\<And>q e. q \<noteq> [] \<Longrightarrow> sstat src q = Some e \<Longrightarrow> digest_fails e (stat vol (rpath @ q))
           \<Longrightarrow> \<exists>sd err. Md5Failed sd q err \<in> set new'"
    by auto
  from n have "new' = new" by simp
  have nf: "\<not> digest_fails e (stat vol (rpath @ q))" if "sstat src q = Some e" for e
  proof
    assume "digest_fails e (stat vol (rpath @ q))"
    from f[OF assms(5) that this] obtain sd err where "Md5Failed sd q err \<in> set new"
      using \<open>new' = new\<close> by auto
    then show False using assms(3) by fastforce
  qed
  note mm = assms(4)[rule_format, of q]
  have a: "stat vol' (rpath @ q) = None" if "sstat src q = None"
    using st that by simp
  have b: "stat vol' (rpath @ q) = Some IsDir" if d: "sstat src q = Some IsDir"
  proof (cases "stat vol (rpath @ q)")
    case None
    then show ?thesis using st d by simp
  next
    case (Some x)
    then show ?thesis using st d mm by (cases x) simp_all
  qed
  have c: "\<exists>c' r' w'. stat vol' (rpath @ q) = Some (IsFile c' r' w')
               \<and> length c' = length c \<and> h c' = h c
               \<and> (c' = c \<or> stat vol (rpath @ q) = Some (IsFile c' r' w'))"
    if s: "sstat src q = Some (IsFile c r w)" for c r w
  proof (cases "stat vol (rpath @ q)")
    case None
    then show ?thesis using st s by simp
  next
    case (Some x)
    show ?thesis
    proof (cases x)
      case IsDir
      then show ?thesis using mm s Some by simp
    next
      case (IsFile c' r' w')
      show ?thesis
      proof (cases "length c = length c' \<and> md5_of h (IsFile c r w) = md5_of h (IsFile c' r' w')")
        case True
        have "r \<and> r'" using nf[OF s] Some IsFile True by simp
        then have "h c = h c'" using True by simp
        moreover have "stat vol' (rpath @ q) = Some (IsFile c' r' w')"
          using st s Some IsFile True by simp
        ultimately show ?thesis using True Some IsFile by simp
      next
        case False
        then have "stat vol' (rpath @ q) = Some (IsFile c r w)"
          using st s Some IsFile by auto
        then show ?thesis by simp
      qed
    qed
  qed
  show ?thesis using a b c by blast
qed

theorem pass_mirrors_source_witness:
  "\<exists>c' r' w'.
     stat (Dir [(''replica'', Dir [(''a'', File [1] True True),
                                  (''d'', Dir [(''b'', File [2, 3] True True)])])])
          ([''replica''] @ [''d'', ''b'']) = Some (IsFile c' r' w')
     \<and> length c' = length [2, 3 :: 8 word] \<and> md5 c' = md5 [2, 3]
     \<and> (c' = [2, 3] \<or> stat (Dir []) ([''replica''] @ [''d'', ''b'']) = Some (IsFile c' r' w'))"
proof -
  let ?src = "Some (Dir [(''a'', File [1] True True), (''d'', Dir [(''b'', File [2, 3] True True)])])"
  have r: "sync_directories 3 md5 ext4_dir_size ?src [''replica''] (Dir [], [])
           = Some (Inr (Dir [(''replica'', Dir [(''a'', File [1] True True),
                                  (''d'', Dir [(''b'', File [2, 3] True True)])])],
                        [] @ [CreatedReplica, CopiedFile [''a''], CreatedDir [''d''],
                              CopiedFile [''d'', ''b'']]))"
    by code_simp
  have w: "wf_node (Dir [])" by simp
  have nf: "\<forall>ev\<in>set [CreatedReplica, CopiedFile [''a''], CreatedDir [''d''],
                              CopiedFile [''d'', ''b'']]. \<not> is_failure ev"
    by simp
  have nm: "\<forall>q. \<not> type_mismatch (sstat ?src q) (stat (Dir []) ([''replica''] @ q))"
  proof
    fix q
    have "stat (Dir []) ([''replica''] @ q) = None" by (simp add: stat_def)
    then show "\<not> type_mismatch (sstat ?src q) (stat (Dir []) ([''replica''] @ q))"
      by (cases "sstat ?src q") simp_all
  qed
  have ne: "[''d'', ''b''] \<noteq> ([]::path)" by simp
  have s: "sstat ?src [''d'', ''b''] = Some (IsFile [2, 3] True True)"
    by (simp add: sstat_def slookup_def)
  from pass_mirrors_source[OF r w nf nm ne] s show ?thesis by blast
qed

end
